theory Spec2Isabelle
  imports Main "HOL-Library.AList" "HOL-Library.Sublist"
begin

section \<open>Strings\<close>

text \<open>
  A JavaScript string is modelled as a \<^typ>\<open>string\<close>, one \<^typ>\<open>char\<close> per code unit; code
  units above 255 are outside the model. A number is rendered in a template literal in
  decimal.
\<close>

abbreviation NL :: char where "NL \<equiv> CHR 0x0A"
abbreviation DQ :: char where "DQ \<equiv> CHR 0x22"
abbreviation SQ :: char where "SQ \<equiv> CHR 0x27"

definition digit_char :: "nat \<Rightarrow> char" where
  "digit_char d = (''0123456789'' ! (d mod 10))"

fun show_nat :: "nat \<Rightarrow> string" where
  "show_nat n = (if n < 10 then [digit_char n] else show_nat (n div 10) @ [digit_char n])"

declare show_nat.simps [simp del]

text \<open>\<^verbatim>\<open>Array.prototype.join\<close> with a separator.\<close>

fun join :: "string \<Rightarrow> string list \<Rightarrow> string" where
  "join sep [] = []"
| "join sep [x] = x"
| "join sep (x # y # ys) = x @ sep @ join sep (y # ys)"

section \<open>Regular expressions\<close>

text \<open>
  The source works with JavaScript regular expressions. They are embedded as a datatype
  with a backtracking matcher: \<open>rm r c\<close> lists, in the order the backtracking of
  \<^verbatim>\<open>RegExp.prototype.exec\<close> tries them, the cursors at which a match of \<open>r\<close> begun at cursor
  \<open>c\<close> can end. A cursor is the code unit before the position (\<open>None\<close> at the start of the
  input) and the rest of the input.
\<close>

datatype regex =
    Eps
  | Sat "char \<Rightarrow> bool"
  | Seq regex regex
  | Alt regex regex
  | Star regex
  | Lazy regex
  | Bol
  | Eol
  | WordB

type_synonym cursor = "char option \<times> string"

definition is_digit :: "char \<Rightarrow> bool" where
  "is_digit c = (c \<in> set ''0123456789'')"

definition is_word :: "char \<Rightarrow> bool" where
  "is_word c = (c \<in> set ''abcdefghijklmnopqrstuvwxyzABCDEFGHIJKLMNOPQRSTUVWXYZ0123456789_'')"

text \<open>\<^verbatim>\<open>\s\<close>, and the characters \<^verbatim>\<open>String.prototype.trim\<close> removes: tab, line feed, vertical
  tab, form feed, carriage return, space, no-break space.\<close>

definition is_space :: "char \<Rightarrow> bool" where
  "is_space c = (c \<in> set [CHR 0x09, CHR 0x0A, CHR 0x0B, CHR 0x0C, CHR 0x0D, CHR 0x20, CHR 0xA0])"

text \<open>\<^verbatim>\<open>.\<close> matches anything but a line terminator.\<close>

definition is_dot :: "char \<Rightarrow> bool" where
  "is_dot c = (c \<noteq> CHR 0x0A \<and> c \<noteq> CHR 0x0D)"

text \<open>The \<^verbatim>\<open>i\<close> flag: an ASCII letter of the pattern matches both of its cases.\<close>

definition lower :: "char \<Rightarrow> char" where
  "lower c =
     (case map_of (zip ''ABCDEFGHIJKLMNOPQRSTUVWXYZ'' ''abcdefghijklmnopqrstuvwxyz'') c of
        Some l \<Rightarrow> l
      | None \<Rightarrow> c)"

text \<open>Greedy and lazy iteration; an iteration that consumes nothing is not taken, so the
  length of the rest bounds the number of iterations.\<close>

fun iter_greedy :: "(cursor \<Rightarrow> cursor list) \<Rightarrow> nat \<Rightarrow> cursor \<Rightarrow> cursor list" where
  "iter_greedy step 0 c = [c]"
| "iter_greedy step (Suc n) c =
     concat (map (iter_greedy step n)
       (filter (\<lambda>c'. length (snd c') < length (snd c)) (step c))) @ [c]"

fun iter_lazy :: "(cursor \<Rightarrow> cursor list) \<Rightarrow> nat \<Rightarrow> cursor \<Rightarrow> cursor list" where
  "iter_lazy step 0 c = [c]"
| "iter_lazy step (Suc n) c =
     c # concat (map (iter_lazy step n)
       (filter (\<lambda>c'. length (snd c') < length (snd c)) (step c)))"

definition word_before :: "cursor \<Rightarrow> bool" where
  "word_before c = (case fst c of None \<Rightarrow> False | Some x \<Rightarrow> is_word x)"

definition word_after :: "cursor \<Rightarrow> bool" where
  "word_after c = (case snd c of [] \<Rightarrow> False | x # xs \<Rightarrow> is_word x)"

fun rm :: "regex \<Rightarrow> cursor \<Rightarrow> cursor list" where
  "rm Eps c = [c]"
| "rm (Sat P) c = (case snd c of [] \<Rightarrow> [] | x # xs \<Rightarrow> if P x then [(Some x, xs)] else [])"
| "rm (Seq a b) c = concat (map (rm b) (rm a c))"
| "rm (Alt a b) c = rm a c @ rm b c"
| "rm (Star a) c = iter_greedy (rm a) (length (snd c)) c"
| "rm (Lazy a) c = iter_lazy (rm a) (length (snd c)) c"
| "rm Bol c = (if fst c = None then [c] else [])"
| "rm Eol c = (if snd c = [] then [c] else [])"
| "rm WordB c = (if word_before c \<noteq> word_after c then [c] else [])"

text \<open>Pattern syntax: \<^verbatim>\<open>x\<close>, \<^verbatim>\<open>abc\<close> (with and without the \<^verbatim>\<open>i\<close> flag), \<^verbatim>\<open>r+\<close>, \<^verbatim>\<open>r?\<close>,
  \<^verbatim>\<open>r{n}\<close>, \<^verbatim>\<open>r{0,n}\<close>, and a sequence of patterns.\<close>

definition chr :: "char \<Rightarrow> regex" where
  "chr x = Sat (\<lambda>c. c = x)"

definition chr_ci :: "char \<Rightarrow> regex" where
  "chr_ci x = Sat (\<lambda>c. lower c = lower x)"

definition seqs :: "regex list \<Rightarrow> regex" where
  "seqs rs = foldr Seq rs Eps"

definition lit :: "string \<Rightarrow> regex" where
  "lit s = seqs (map chr s)"

definition lit_ci :: "string \<Rightarrow> regex" where
  "lit_ci s = seqs (map chr_ci s)"

fun alts :: "regex list \<Rightarrow> regex" where
  "alts [] = Sat (\<lambda>c. False)"
| "alts [r] = r"
| "alts (r # rs) = Alt r (alts rs)"

definition Plus :: "regex \<Rightarrow> regex" where
  "Plus r = Seq r (Star r)"

definition Opt :: "regex \<Rightarrow> regex" where
  "Opt r = Alt r Eps"

fun rep :: "nat \<Rightarrow> regex \<Rightarrow> regex" where
  "rep 0 r = Eps"
| "rep (Suc n) r = Seq r (rep n r)"

fun upto :: "nat \<Rightarrow> regex \<Rightarrow> regex" where
  "upto 0 r = Eps"
| "upto (Suc n) r = Opt (Seq r (upto n r))"

text \<open>
  \<^verbatim>\<open>String.prototype.match\<close> without the \<^verbatim>\<open>g\<close> flag: the leftmost position at which the
  pattern matches, with the matched text and the rest; \<^verbatim>\<open>RegExp.prototype.test\<close>.
\<close>

fun find_at :: "regex \<Rightarrow> char option \<Rightarrow> string \<Rightarrow> (nat \<times> string \<times> string) option" where
  "find_at r p s =
     (case rm r (p, s) of
        c # cs \<Rightarrow> Some (0, take (length s - length (snd c)) s, snd c)
      | [] \<Rightarrow> (case s of [] \<Rightarrow> None
               | x # xs \<Rightarrow> map_option (\<lambda>(i, m, t). (Suc i, m, t)) (find_at r (Some x) xs)))"

definition test :: "regex \<Rightarrow> string \<Rightarrow> bool" where
  "test r s = (find_at r None s \<noteq> None)"

text \<open>\<^verbatim>\<open>s.replace(r, rep)\<close> for a pattern without the \<^verbatim>\<open>g\<close> flag.\<close>

definition replace_first :: "regex \<Rightarrow> string \<Rightarrow> string \<Rightarrow> string" where
  "replace_first r rp s =
     (case find_at r None s of None \<Rightarrow> s | Some (i, m, t) \<Rightarrow> take i s @ rp @ t)"

text \<open>\<^verbatim>\<open>s.replace(r, rep)\<close> for a pattern with the \<^verbatim>\<open>g\<close> flag. After an empty match the
  scan copies one code unit and goes on.\<close>

fun replace_all :: "regex \<Rightarrow> string \<Rightarrow> char option \<Rightarrow> string \<Rightarrow> string" where
  "replace_all r rp p s =
     (case rm r (p, s) of
        c # cs \<Rightarrow>
          if length (snd c) < length s then rp @ replace_all r rp (fst c) (snd c)
          else rp @ (case s of [] \<Rightarrow> [] | x # xs \<Rightarrow> x # replace_all r rp (Some x) xs)
      | [] \<Rightarrow> (case s of [] \<Rightarrow> [] | x # xs \<Rightarrow> x # replace_all r rp (Some x) xs))"

declare find_at.simps [simp del] replace_all.simps [simp del]

text \<open>
  A pattern \<^verbatim>\<open>pre(grp)suf\<close> with one capture group: the text the group captures in the
  leftmost match, \<open>None\<close> when the pattern matches nowhere.
\<close>

definition group_at :: "regex \<Rightarrow> regex \<Rightarrow> regex \<Rightarrow> cursor \<Rightarrow> string option" where
  "group_at pre grp suf c =
     (case concat (map (\<lambda>c1. concat (map (\<lambda>c2.
              if rm suf c2 = [] then []
              else [take (length (snd c1) - length (snd c2)) (snd c1)]) (rm grp c1))) (rm pre c)) of
        [] \<Rightarrow> None
      | g # gs \<Rightarrow> Some g)"

fun find_group :: "regex \<Rightarrow> regex \<Rightarrow> regex \<Rightarrow> char option \<Rightarrow> string \<Rightarrow> string option" where
  "find_group pre grp suf p s =
     (case group_at pre grp suf (p, s) of
        Some g \<Rightarrow> Some g
      | None \<Rightarrow> (case s of [] \<Rightarrow> None | x # xs \<Rightarrow> find_group pre grp suf (Some x) xs))"

declare find_group.simps [simp del]

text \<open>\<^verbatim>\<open>String.prototype.trim\<close>.\<close>

definition trim :: "string \<Rightarrow> string" where
  "trim s = rev (dropWhile is_space (rev (dropWhile is_space s)))"

section \<open>Query builder: appendCreatedAtFilter\<close>

text \<open>A value of type \<^verbatim>\<open>string | undefined\<close> is truthy when it is a non-empty string.\<close>

fun truthy :: "string option \<Rightarrow> bool" where
  "truthy None = False"
| "truthy (Some s) = (s \<noteq> [])"

text \<open>\<^verbatim>\<open>/^\d{4}-\d{2}-\d{2}(T[\d:.]+Z?)?$/\<close>\<close>

definition isoDatePattern :: regex where
  "isoDatePattern =
     seqs [Bol, rep 4 (Sat is_digit), chr CHR ''-'', rep 2 (Sat is_digit), chr CHR ''-'',
           rep 2 (Sat is_digit),
           Opt (seqs [chr CHR ''T'',
                      Plus (Sat (\<lambda>c. is_digit c \<or> c = CHR '':'' \<or> c = CHR ''.'')),
                      Opt (chr CHR ''Z'')]),
           Eol]"

text \<open>\<^verbatim>\<open>d.replace(/\.\d{3}Z$/, 'Z')\<close>\<close>

definition normalize :: "string \<Rightarrow> string" where
  "normalize d =
     replace_first (seqs [chr CHR ''.'', rep 3 (Sat is_digit), chr CHR ''Z'', Eol]) ''Z'' d"

definition bound_or_star :: "string option \<Rightarrow> string" where
  "bound_or_star d = (case d of None \<Rightarrow> ''*'' | Some s \<Rightarrow> if s = [] then ''*'' else normalize s)"

definition date_clause :: "string option \<Rightarrow> string option \<Rightarrow> string" where
  "date_clause createdAfter createdBefore =
     ''(createdAt:['' @ bound_or_star createdAfter @ '' TO '' @ bound_or_star createdBefore @ ''])''"

definition invalid_date :: "string \<Rightarrow> string \<Rightarrow> string" where
  "invalid_date field d =
     ''Invalid '' @ field @ '' date format: '' @ d @
     ''. Expected ISO 8601 (e.g., 2024-01-15T00:00:00Z)''"

text \<open>\<^verbatim>\<open>appendCreatedAtFilter\<close> (lines 93-117); a thrown \<^verbatim>\<open>Error\<close> is \<open>Inl\<close> of its message.\<close>

definition appendCreatedAtFilter ::
    "string option \<Rightarrow> string option \<Rightarrow> string option \<Rightarrow> string + string option" where
  "appendCreatedAtFilter existingQuery createdAfter createdBefore =
     (if \<not> truthy createdAfter \<and> \<not> truthy createdBefore then Inr existingQuery
      else if truthy createdAfter \<and> \<not> test isoDatePattern (the createdAfter)
        then Inl (invalid_date ''createdAfter'' (the createdAfter))
      else if truthy createdBefore \<and> \<not> test isoDatePattern (the createdBefore)
        then Inl (invalid_date ''createdBefore'' (the createdBefore))
      else if \<not> truthy existingQuery then Inr (Some (date_clause createdAfter createdBefore))
      else Inr (Some (''('' @ the existingQuery @ '') AND '' @
                      date_clause createdAfter createdBefore)))"

section \<open>Search aggregation: data\<close>

text \<open>
  \<^verbatim>\<open>ConversationSchema\<close>: the fields the aggregation reads. \<open>createdAt\<close> holds the epoch
  milliseconds that \<^verbatim>\<open>new Date(conv.createdAt).getTime()\<close> yields for the record's timestamp
  string; the records are API data whose timestamps parse.
\<close>

datatype status = Active | Pending | Closed | Spam

record conversation =
  conv_id :: int
  number :: int
  subject :: string
  createdAt :: int

text \<open>\<^verbatim>\<open>PaginatedResponse<Conversation>\<close>: \<^verbatim>\<open>_embedded?.conversations\<close> and \<^verbatim>\<open>page?.totalElements\<close>.\<close>

record page =
  totalElements :: "nat option"

record response =
  embedded_conversations :: "conversation list option"
  response_page :: "page option"

text \<open>\<^verbatim>\<open>ErrorSchema\<close>: the structured API error.\<close>

datatype api_code = INVALID_INPUT | NOT_FOUND | UNAUTHORIZED | RATE_LIMIT | UPSTREAM_ERROR

record api_error =
  code :: api_code
  message :: string

text \<open>
  Modelled from the spec: the type guard \<^verbatim>\<open>isApiError\<close> of \<^verbatim>\<open>utils/mcp-errors.js\<close> is not among
  the sources. A thrown value is either a recognized structured API error or anything else
  (an \<^verbatim>\<open>Error\<close> with its message).
\<close>

datatype reason = ApiError api_error | OtherError string

fun isApiError :: "reason \<Rightarrow> bool" where
  "isApiError (ApiError e) = True"
| "isApiError (OtherError m) = False"

text \<open>One entry of \<^verbatim>\<open>Promise.allSettled\<close>.\<close>

datatype 'a settled = Fulfilled 'a | Rejected reason

fun status_name :: "status \<Rightarrow> string" where
  "status_name Active = ''active''"
| "status_name Pending = ''pending''"
| "status_name Closed = ''closed''"
| "status_name Spam = ''spam''"

fun code_name :: "api_code \<Rightarrow> string" where
  "code_name INVALID_INPUT = ''INVALID_INPUT''"
| "code_name NOT_FOUND = ''NOT_FOUND''"
| "code_name UNAUTHORIZED = ''UNAUTHORIZED''"
| "code_name RATE_LIMIT = ''RATE_LIMIT''"
| "code_name UPSTREAM_ERROR = ''UPSTREAM_ERROR''"

text \<open>An entry of \<^verbatim>\<open>failedStatuses\<close>: \<^verbatim>\<open>{ status, message, code }\<close>.\<close>

record failed_status =
  failed_name :: status
  failed_message :: string
  failed_code :: api_code

text \<open>
  A date argument of the input (\<^verbatim>\<open>createdBefore\<close>): the string as supplied and what
  \<^verbatim>\<open>new Date(s).getTime()\<close> yields for it, \<open>None\<close> for \<^verbatim>\<open>NaN\<close>.
\<close>

record date_arg =
  date_text :: string
  date_time :: "int option"

section \<open>searchConversations\<close>

text \<open>The local variables of the merge loop (lines 764-767 and \<^verbatim>\<open>conversations\<close>).\<close>

record merge_state =
  seenIds :: "int set"
  conversations :: "conversation list"
  failedStatuses :: "failed_status list"
  totalAvailable :: nat
  totalByStatus :: "(status \<times> nat) list"

definition init_state :: merge_state where
  "init_state = \<lparr>seenIds = {}, conversations = [], failedStatuses = [],
     totalAvailable = 0, totalByStatus = []\<rparr>"

text \<open>The inner loop over a fulfilled branch's conversations (lines 777-782).\<close>

fun push_unseen :: "conversation list \<Rightarrow> merge_state \<Rightarrow> merge_state" where
  "push_unseen [] st = st"
| "push_unseen (conv # rest) st =
     push_unseen rest
       (if conv_id conv \<in> seenIds st then st
        else st\<lparr>seenIds := insert (conv_id conv) (seenIds st),
                conversations := conversations st @ [conv]\<rparr>)"

definition reported_total :: "response \<Rightarrow> nat" where
  "reported_total v =
     (case response_page v of None \<Rightarrow> 0
      | Some p \<Rightarrow> (case totalElements p of None \<Rightarrow> 0 | Some n \<Rightarrow> n))"

definition response_conversations :: "response \<Rightarrow> conversation list" where
  "response_conversations v = (case embedded_conversations v of None \<Rightarrow> [] | Some cs \<Rightarrow> cs)"

text \<open>One iteration of the loop over \<^verbatim>\<open>results.entries()\<close> (lines 769-818); a throw is \<open>Inl\<close>.\<close>

fun merge_branch :: "status \<Rightarrow> response settled \<Rightarrow> merge_state \<Rightarrow> reason + merge_state" where
  "merge_branch statusName (Fulfilled v) st =
     Inr (push_unseen (response_conversations v)
       (st\<lparr>totalByStatus := AList.update statusName (reported_total v) (totalByStatus st),
           totalAvailable := totalAvailable st + reported_total v\<rparr>))"
| "merge_branch failedStatus (Rejected (OtherError m)) st = Inl (OtherError m)"
| "merge_branch failedStatus (Rejected (ApiError e)) st =
     (if code e = UNAUTHORIZED \<or> code e = INVALID_INPUT then Inl (ApiError e)
      else Inr (st\<lparr>failedStatuses := failedStatuses st @
             [\<lparr>failed_name = failedStatus, failed_message = message e, failed_code = code e\<rparr>]\<rparr>))"

fun merge_loop :: "(status \<times> response settled) list \<Rightarrow> merge_state \<Rightarrow> reason + merge_state" where
  "merge_loop [] st = Inr st"
| "merge_loop ((s, r) # rest) st =
     (case merge_branch s r st of Inl e \<Rightarrow> Inl e | Inr st' \<Rightarrow> merge_loop rest st')"

definition statuses :: "status list" where
  "statuses = [Active, Pending, Closed]"

text \<open>
  \<^verbatim>\<open>conversations.sort((a, b) => new Date(b.createdAt).getTime() - new Date(a.createdAt).getTime())\<close>:
  \<^verbatim>\<open>Array.prototype.sort\<close> is stable, as is insertion sort on the negated key.
\<close>

definition sort_desc :: "conversation list \<Rightarrow> conversation list" where
  "sort_desc cs = sort_key (\<lambda>c. - createdAt c) cs"

text \<open>\<^verbatim>\<open>input.limit || 50\<close>, then \<^verbatim>\<open>slice(0, effectiveLimit)\<close> when longer (lines 829-832).\<close>

definition effectiveLimit :: "nat \<Rightarrow> nat" where
  "effectiveLimit limit = (if limit = 0 then 50 else limit)"

definition apply_limit :: "nat \<Rightarrow> conversation list \<Rightarrow> conversation list" where
  "apply_limit limit cs =
     (if length cs > effectiveLimit limit then take (effectiveLimit limit) cs else cs)"

text \<open>The pagination object built for merged results (lines 835-843), and after filtering.\<close>

record pagination_info =
  totalResults :: nat
  pg_totalAvailable :: "nat option"
  pg_totalByStatus :: "(status \<times> nat) list option"
  pg_errors :: "failed_status list option"
  pg_note :: string

datatype pagination = ApiPage "page option" | Info pagination_info

definition failed_label :: "failed_status \<Rightarrow> string" where
  "failed_label f = status_name (failed_name f) @ '' ('' @ code_name (failed_code f) @ '')''"

definition merged_note :: "merge_state \<Rightarrow> nat \<Rightarrow> string" where
  "merged_note st returned =
     (if length (failedStatuses st) > 0
      then ''[WARNING] '' @ show_nat (length (failedStatuses st)) @
           '' status(es) failed - results incomplete! Failed: '' @
           join '', '' (map failed_label (failedStatuses st)) @
           ''. Totals reflect successful statuses only.''
      else ''Merged results from '' @ show_nat (length (totalByStatus st)) @
           '' statuses. Returned '' @ show_nat returned @ '' of '' @
           show_nat (totalAvailable st) @ '' total conversations.'')"

definition merged_pagination :: "merge_state \<Rightarrow> nat \<Rightarrow> pagination_info" where
  "merged_pagination st returned =
     \<lparr>totalResults = returned,
      pg_totalAvailable = (if length (totalByStatus st) > 0 then Some (totalAvailable st) else None),
      pg_totalByStatus = (if length (totalByStatus st) > 0 then Some (totalByStatus st) else None),
      pg_errors = (if length (failedStatuses st) > 0 then Some (failedStatuses st) else None),
      pg_note = merged_note st returned\<rparr>"

text \<open>
  The multi-status branch of \<^verbatim>\<open>searchConversations\<close> (lines 749-850). \<open>fetch\<close> is the settled
  outcome of the transport call for each status; \<^verbatim>\<open>Promise.allSettled\<close> yields one entry
  per element of \<^verbatim>\<open>statuses\<close>, in order.
\<close>

definition allSettled :: "(status \<Rightarrow> response settled) \<Rightarrow> status list \<Rightarrow> (status \<times> response settled) list" where
  "allSettled fetch ss = map (\<lambda>s. (s, fetch s)) ss"

definition merged_conversations :: "nat \<Rightarrow> merge_state \<Rightarrow> conversation list" where
  "merged_conversations limit st = apply_limit limit (sort_desc (conversations st))"

definition multi_status :: "(status \<Rightarrow> response settled) \<Rightarrow> nat \<Rightarrow> reason + (conversation list \<times> pagination)" where
  "multi_status fetch limit =
     (case merge_loop (allSettled fetch statuses) init_state of
        Inl e \<Rightarrow> Inl e
      | Inr st \<Rightarrow>
          let convs = merged_conversations limit st
          in Inr (convs, Info (merged_pagination st (length convs))))"

text \<open>The single-status branch (lines 739-747): a rejected call throws.\<close>

definition single_status :: "(status \<Rightarrow> response settled) \<Rightarrow> status \<Rightarrow> reason + (conversation list \<times> pagination)" where
  "single_status fetch s =
     (case fetch s of
        Rejected r \<Rightarrow> Inl r
      | Fulfilled v \<Rightarrow> Inr (response_conversations v, ApiPage (response_page v)))"

text \<open>\<^verbatim>\<open>applyCreatedBeforeFilter\<close> (lines 1362-1386).\<close>

record filter_result =
  filtered :: "conversation list"
  wasFiltered :: bool
  removedCount :: nat

definition applyCreatedBeforeFilter :: "conversation list \<Rightarrow> date_arg \<Rightarrow> reason + filter_result" where
  "applyCreatedBeforeFilter convs d =
     (case date_time d of
        None \<Rightarrow> Inl (OtherError (''Invalid createdBefore date format: '' @ date_text d @
                 ''. Expected ISO 8601 format (e.g., 2023-01-15T00:00:00Z)''))
      | Some beforeDate \<Rightarrow>
          let flt = filter (\<lambda>conv. createdAt conv < beforeDate) convs;
              removed = length convs - length flt
          in Inr \<lparr>filtered = flt, wasFiltered = removed > 0, removedCount = removed\<rparr>)"

text \<open>A number or \<^verbatim>\<open>undefined\<close> in a template literal.\<close>

fun show_opt :: "nat option \<Rightarrow> string" where
  "show_opt None = ''undefined''"
| "show_opt (Some n) = show_nat n"

text \<open>\<^verbatim>\<open>buildFilteredPagination\<close> (lines 1400-1411).\<close>

definition page_total :: "page option \<Rightarrow> nat option" where
  "page_total apiPage = (case apiPage of None \<Rightarrow> None | Some p \<Rightarrow> totalElements p)"

definition buildFilteredPagination :: "nat \<Rightarrow> page option \<Rightarrow> bool \<Rightarrow> pagination" where
  "buildFilteredPagination filteredCount apiPage wasFilt =
     (if \<not> wasFilt then ApiPage apiPage
      else Info \<lparr>totalResults = filteredCount,
                 pg_totalAvailable = page_total apiPage,
                 pg_totalByStatus = None,
                 pg_errors = None,
                 pg_note = ''Results filtered client-side by createdBefore. totalResults shows filtered count ('' @
                   show_nat filteredCount @ ''), totalAvailable shows pre-filter API total ('' @
                   show_opt (page_total apiPage) @ '').''\<rparr>)"

text \<open>The two casts of \<^verbatim>\<open>originalPagination\<close> (lines 869 and 874); each is used on the branch
  that built a value of that shape.\<close>

fun as_page :: "pagination \<Rightarrow> page option" where
  "as_page (ApiPage p) = p"
| "as_page (Info m) = None"

fun as_merged :: "pagination \<Rightarrow> pagination_info option" where
  "as_merged (Info m) = Some m"
| "as_merged (ApiPage p) = None"

definition refiltered_pagination :: "nat \<Rightarrow> pagination_info option \<Rightarrow> pagination" where
  "refiltered_pagination n merged =
     (let avail = (case merged of None \<Rightarrow> None | Some m \<Rightarrow> pg_totalAvailable m)
      in Info \<lparr>totalResults = n,
                pg_totalAvailable = avail,
                pg_totalByStatus = (case merged of None \<Rightarrow> None | Some m \<Rightarrow> pg_totalByStatus m),
                pg_errors = (case merged of None \<Rightarrow> None | Some m \<Rightarrow> pg_errors m),
                pg_note = ''Client-side createdBefore filter applied to merged results. totalResults shows filtered count ('' @
                  show_nat n @ ''), totalAvailable shows pre-filter total ('' @ show_opt avail @ ''). '' @
                  (case merged of None \<Rightarrow> [] | Some m \<Rightarrow> pg_note m)\<rparr>)"

text \<open>
  The input of \<^verbatim>\<open>searchConversations\<close> after \<^verbatim>\<open>SearchConversationsInputSchema.parse\<close> (the fields
  the aggregation reads), and its result (\<^verbatim>\<open>results\<close>, \<^verbatim>\<open>pagination\<close>, and whether the
  client-side filter removed something).
\<close>

record search_input =
  query :: "string option"
  in_status :: "status option"
  createdAfter :: "string option"
  createdBefore :: "date_arg option"
  limit :: nat

record search_result =
  results :: "conversation list"
  res_pagination :: pagination
  clientSideFiltered :: bool

definition date_supplied :: "date_arg option \<Rightarrow> bool" where
  "date_supplied d = (case d of None \<Rightarrow> False | Some a \<Rightarrow> date_text a \<noteq> [])"

text \<open>The query sent to the API (lines 716-733): \<^verbatim>\<open>input.query\<close> with the lower date bound
  appended; \<open>None\<close> when \<^verbatim>\<open>baseParams.query\<close> stays unset.\<close>

definition base_query :: "search_input \<Rightarrow> reason + string option" where
  "base_query input =
     (case appendCreatedAtFilter (if truthy (query input) then query input else None)
             (createdAfter input) None of
        Inl m \<Rightarrow> Inl (OtherError m)
      | Inr queryWithDate \<Rightarrow>
          Inr (if truthy queryWithDate then queryWithDate
               else if truthy (query input) then query input else None))"

text \<open>Lines 735-889: the fetch of one status or of the three, then the client-side
  \<^verbatim>\<open>createdBefore\<close> filter and the pagination rebuilt after it. \<open>get s\<close> is the settled outcome
  of the transport call for status \<open>s\<close>.\<close>

definition search_statuses :: "search_input \<Rightarrow> (status \<Rightarrow> response settled) \<Rightarrow> reason + search_result" where
  "search_statuses input get =
     (case (case in_status input of
              Some s \<Rightarrow> single_status get s
            | None \<Rightarrow> multi_status get (limit input)) of
        Inl e \<Rightarrow> Inl e
      | Inr (convs, originalPagination) \<Rightarrow>
          if date_supplied (createdBefore input) then
            (case applyCreatedBeforeFilter convs (the (createdBefore input)) of
               Inl e \<Rightarrow> Inl e
             | Inr fr \<Rightarrow>
                 Inr \<lparr>results = filtered fr,
                      res_pagination =
                        (if wasFiltered fr then
                           (if in_status input \<noteq> None
                            then buildFilteredPagination (length (filtered fr))
                                   (as_page originalPagination) True
                            else refiltered_pagination (length (filtered fr))
                                   (as_merged originalPagination))
                         else originalPagination),
                      clientSideFiltered = wasFiltered fr\<rparr>)
          else Inr \<lparr>results = convs, res_pagination = originalPagination,
                    clientSideFiltered = False\<rparr>)"

text \<open>
  \<^verbatim>\<open>searchConversations\<close> (lines 706-932) up to field selection. \<open>fetch q s\<close> is the settled
  outcome of the transport call made with query \<open>q\<close> and status \<open>s\<close>.
\<close>

definition searchConversations ::
    "search_input \<Rightarrow> (string option \<Rightarrow> status \<Rightarrow> response settled) \<Rightarrow> reason + search_result" where
  "searchConversations input fetch =
     (case base_query input of
        Inl e \<Rightarrow> Inl e
      | Inr q \<Rightarrow> search_statuses input (fetch q))"

section \<open>comprehensiveConversationSearch\<close>

text \<open>The search context (\<^verbatim>\<open>buildComprehensiveSearchContext\<close>): the parsed input's statuses,
  limit and \<^verbatim>\<open>createdBefore\<close>, the built query and the lower date bound.\<close>

record search_context =
  ctx_statuses :: "status list"
  searchQuery :: string
  ctx_createdAfter :: string
  limitPerStatus :: nat
  ctx_createdBefore :: "date_arg option"

text \<open>An element of \<^verbatim>\<open>allResults\<close>.\<close>

record branch_result =
  br_status :: status
  totalCount :: nat
  totalCountBeforeFilter :: "nat option"
  br_conversations :: "conversation list"
  br_searchQuery :: string
  filteredByCreatedBefore :: "bool option"

text \<open>\<^verbatim>\<open>searchSingleStatus\<close> (lines 1416-1461).\<close>

definition searchSingleStatus ::
    "search_context \<Rightarrow> (string option \<Rightarrow> status \<Rightarrow> response settled) \<Rightarrow> status \<Rightarrow> reason + branch_result" where
  "searchSingleStatus ctx fetch s =
     (case appendCreatedAtFilter (Some (searchQuery ctx)) (Some (ctx_createdAfter ctx)) None of
        Inl m \<Rightarrow> Inl (OtherError m)
      | Inr queryWithDate \<Rightarrow>
          (case fetch (Some (if truthy queryWithDate then the queryWithDate else searchQuery ctx)) s of
             Rejected r \<Rightarrow> Inl r
           | Fulfilled v \<Rightarrow>
               let convs = response_conversations v;
                   apiTotalElements = (if reported_total v = 0 then length convs else reported_total v)
               in if date_supplied (ctx_createdBefore ctx) then
                    (case applyCreatedBeforeFilter convs (the (ctx_createdBefore ctx)) of
                       Inl e \<Rightarrow> Inl e
                     | Inr fr \<Rightarrow>
                         Inr \<lparr>br_status = s,
                              totalCount = (if wasFiltered fr then length (filtered fr) else apiTotalElements),
                              totalCountBeforeFilter = (if wasFiltered fr then Some apiTotalElements else None),
                              br_conversations = filtered fr,
                              br_searchQuery = searchQuery ctx,
                              filteredByCreatedBefore = Some (wasFiltered fr)\<rparr>)
                  else Inr \<lparr>br_status = s, totalCount = apiTotalElements,
                            totalCountBeforeFilter = None, br_conversations = convs,
                            br_searchQuery = searchQuery ctx,
                            filteredByCreatedBefore = Some False\<rparr>))"

text \<open>A \<^verbatim>\<open>logger.error\<close> call of the catch block: its text, and the status, error code and
  message it is given.\<close>

record log_entry =
  log_text :: string
  log_status :: status
  log_code :: "api_code option"
  log_message :: string

text \<open>The element pushed for a branch that failed with a non-critical API error
  (lines 1346-1351).\<close>

definition failed_branch :: "search_context \<Rightarrow> status \<Rightarrow> branch_result" where
  "failed_branch ctx s =
     \<lparr>br_status = s, totalCount = 0, totalCountBeforeFilter = None, br_conversations = [],
      br_searchQuery = searchQuery ctx, filteredByCreatedBefore = None\<rparr>"

text \<open>The loop of \<^verbatim>\<open>executeMultiStatusSearch\<close> (lines 1303-1355) over the statuses still to
  search, with \<^verbatim>\<open>allResults\<close> and the error log as state.\<close>

fun exec_loop ::
    "search_context \<Rightarrow> (string option \<Rightarrow> status \<Rightarrow> response settled) \<Rightarrow> status list \<Rightarrow>
     branch_result list \<times> log_entry list \<Rightarrow> (reason + branch_result list) \<times> log_entry list" where
  "exec_loop ctx fetch [] (allResults, log) = (Inr allResults, log)"
| "exec_loop ctx fetch (s # rest) (allResults, log) =
     (case searchSingleStatus ctx fetch s of
        Inr result \<Rightarrow> exec_loop ctx fetch rest (allResults @ [result], log)
      | Inl (OtherError m) \<Rightarrow>
          (Inl (OtherError m),
           log @ [\<lparr>log_text = ''Unexpected non-API error in multi-status search'',
                   log_status = s, log_code = None, log_message = m\<rparr>])
      | Inl (ApiError e) \<Rightarrow>
          if code e = UNAUTHORIZED \<or> code e = INVALID_INPUT then
            (Inl (ApiError e),
             log @ [\<lparr>log_text = ''Critical API error in multi-status search - aborting'',
                     log_status = s, log_code = Some (code e), log_message = message e\<rparr>])
          else exec_loop ctx fetch rest
                 (allResults @ [failed_branch ctx s],
                  log @ [\<lparr>log_text = ''Status search failed - partial results will be returned'',
                          log_status = s, log_code = Some (code e), log_message = message e\<rparr>]))"

definition executeMultiStatusSearch ::
    "search_context \<Rightarrow> (string option \<Rightarrow> status \<Rightarrow> response settled) \<Rightarrow>
     (reason + branch_result list) \<times> log_entry list" where
  "executeMultiStatusSearch ctx fetch = exec_loop ctx fetch (ctx_statuses ctx) ([], [])"

text \<open>The totals of \<^verbatim>\<open>formatComprehensiveSearchResults\<close> (lines 1483-1505).\<close>

record search_summary =
  totalConversationsFound :: nat
  totalAvailableAcrossStatuses :: nat
  totalBeforeClientSideFiltering :: "nat option"
  clientSideFilteringApplied :: "string option"
  resultsByStatus :: "branch_result list"

definition before_filter_or_count :: "branch_result \<Rightarrow> nat" where
  "before_filter_or_count r =
     (case totalCountBeforeFilter r of None \<Rightarrow> totalCount r
      | Some n \<Rightarrow> if n = 0 then totalCount r else n)"

definition formatComprehensiveSearchResults :: "branch_result list \<Rightarrow> search_summary" where
  "formatComprehensiveSearchResults allResults =
     (let totalConversations = sum_list (map (\<lambda>r. length (br_conversations r)) allResults);
          totalAvail = sum_list (map totalCount allResults);
          hasClientSideFiltering = list_ex (\<lambda>r. filteredByCreatedBefore r = Some True) allResults;
          totalBeforeFilter = (if hasClientSideFiltering
                               then Some (sum_list (map before_filter_or_count allResults))
                               else None)
      in \<lparr>totalConversationsFound = totalConversations,
          totalAvailableAcrossStatuses = totalAvail,
          totalBeforeClientSideFiltering = totalBeforeFilter,
          clientSideFilteringApplied =
            (if hasClientSideFiltering
             then Some (''createdBefore filter applied - totalConversationsFound ('' @
                        show_nat totalConversations @
                        '') reflects filtered results, totalBeforeClientSideFiltering ('' @
                        show_opt totalBeforeFilter @ '') shows pre-filter API totals'')
             else None),
          resultsByStatus = allResults\<rparr>)"

definition comprehensiveConversationSearch ::
    "search_context \<Rightarrow> (string option \<Rightarrow> status \<Rightarrow> response settled) \<Rightarrow> reason + search_summary" where
  "comprehensiveConversationSearch ctx fetch =
     (case fst (executeMultiStatusSearch ctx fetch) of
        Inl e \<Rightarrow> Inl e
      | Inr searchResults \<Rightarrow> Inr (formatComprehensiveSearchResults searchResults))"

section \<open>Content normalizer: inline images\<close>

text \<open>
  \<^verbatim>\<open>s.replace(r, callback)\<close> for a pattern with the \<^verbatim>\<open>g\<close> flag: the scan first splits the input
  into the code units it copies (\<open>Inl\<close>) and the matches it found (\<open>Inr\<close>), then calls the
  callback on each match in order; the callback may read and write the state \<open>'s\<close> it closes
  over.
\<close>

fun tokens :: "regex \<Rightarrow> char option \<Rightarrow> string \<Rightarrow> (char + string) list" where
  "tokens r p s =
     (case rm r (p, s) of
        c # cs \<Rightarrow>
          Inr (take (length s - length (snd c)) s) #
          (if length (snd c) < length s then tokens r (fst c) (snd c)
           else (case s of [] \<Rightarrow> [] | x # xs \<Rightarrow> Inl x # tokens r (Some x) xs))
      | [] \<Rightarrow> (case s of [] \<Rightarrow> [] | x # xs \<Rightarrow> Inl x # tokens r (Some x) xs))"

declare tokens.simps [simp del]

fun run_callback :: "(string \<Rightarrow> 's \<Rightarrow> string \<times> 's) \<Rightarrow> (char + string) list \<Rightarrow> 's \<Rightarrow> string \<times> 's" where
  "run_callback f [] st = ([], st)"
| "run_callback f (Inl c # ts) st =
     (case run_callback f ts st of (out, st') \<Rightarrow> (c # out, st'))"
| "run_callback f (Inr m # ts) st =
     (case f m st of (rp, st1) \<Rightarrow>
        (case run_callback f ts st1 of (out, st2) \<Rightarrow> (rp @ out, st2)))"

definition replace_cb :: "regex \<Rightarrow> (string \<Rightarrow> 's \<Rightarrow> string \<times> 's) \<Rightarrow> string \<Rightarrow> 's \<Rightarrow> string \<times> 's" where
  "replace_cb r f s st = run_callback f (tokens r None s) st"

text \<open>\<^verbatim>\<open>InlineImage\<close>; \<open>None\<close> is \<^verbatim>\<open>null\<close>.\<close>

record InlineImage =
  img_index :: nat
  img_src :: string
  img_alt :: string
  img_width :: "string option"
  img_height :: "string option"
  isFetchable :: bool

definition is_quote :: "char \<Rightarrow> bool" where
  "is_quote c = (c = DQ \<or> c = SQ)"

text \<open>\<^verbatim>\<open>/<img\b[^>]*>/gi\<close>\<close>

definition img_pattern :: regex where
  "img_pattern = seqs [lit_ci ''<img'', WordB, Star (Sat (\<lambda>c. c \<noteq> CHR ''>'')), chr CHR ''>'']"

text \<open>\<^verbatim>\<open>/\bNAME\s*=\s*/i\<close>, the common start of the four attribute patterns.\<close>

definition attr_start :: "string \<Rightarrow> regex list" where
  "attr_start name = [WordB, lit_ci name, Star (Sat is_space), chr CHR ''='', Star (Sat is_space)]"

text \<open>\<^verbatim>\<open>tag.match(/\bsrc\s*=\s*["']([^"']+)["']/i)?.[1] || ''\<close>\<close>

definition attr_src :: "string \<Rightarrow> string" where
  "attr_src tag =
     (case find_group (seqs (attr_start ''src'' @ [Sat is_quote]))
             (Plus (Sat (\<lambda>c. \<not> is_quote c))) (Sat is_quote) None tag of
        None \<Rightarrow> [] | Some g \<Rightarrow> g)"

text \<open>\<^verbatim>\<open>tag.match(/\balt\s*=\s*["']([^"']*?)["']/i)?.[1] || ''\<close>\<close>

definition attr_alt :: "string \<Rightarrow> string" where
  "attr_alt tag =
     (case find_group (seqs (attr_start ''alt'' @ [Sat is_quote]))
             (Lazy (Sat (\<lambda>c. \<not> is_quote c))) (Sat is_quote) None tag of
        None \<Rightarrow> [] | Some g \<Rightarrow> g)"

text \<open>\<^verbatim>\<open>tag.match(/\bwidth\s*=\s*["']?(\d+)["']?/i)?.[1] || null\<close>, and the same for
  \<^verbatim>\<open>height\<close>.\<close>

definition attr_number :: "string \<Rightarrow> string \<Rightarrow> string option" where
  "attr_number name tag =
     (case find_group (seqs (attr_start name @ [Opt (Sat is_quote)]))
             (Plus (Sat is_digit)) (Opt (Sat is_quote)) None tag of
        None \<Rightarrow> None | Some g \<Rightarrow> if g = [] then None else Some g)"

text \<open>\<^verbatim>\<open>/^https?:\/\//i\<close>\<close>

definition fetchable_pattern :: regex where
  "fetchable_pattern = seqs [Bol, lit_ci ''http'', Opt (chr_ci CHR ''s''), lit_ci ''://'']"

definition is_pixel :: "string \<Rightarrow> bool" where
  "is_pixel tag = (attr_number ''width'' tag = Some ''1'' \<and> attr_number ''height'' tag = Some ''1'')"

definition placeholder :: "nat \<Rightarrow> string \<Rightarrow> string" where
  "placeholder n alt =
     (if alt \<noteq> [] then ''[Image '' @ show_nat n @ '': '' @ alt @ '']''
      else ''[Image '' @ show_nat n @ '']'')"

definition image_of :: "nat \<Rightarrow> string \<Rightarrow> InlineImage" where
  "image_of n tag =
     \<lparr>img_index = n, img_src = attr_src tag, img_alt = attr_alt tag,
      img_width = attr_number ''width'' tag, img_height = attr_number ''height'' tag,
      isFetchable = test fetchable_pattern (attr_src tag)\<rparr>"

text \<open>The callback of \<^verbatim>\<open>extractInlineImages\<close> (lines 135-158); its state is \<^verbatim>\<open>imageIndex\<close> and
  \<^verbatim>\<open>images\<close>.\<close>

definition image_callback :: "string \<Rightarrow> nat \<times> InlineImage list \<Rightarrow> string \<times> (nat \<times> InlineImage list)" where
  "image_callback tag st =
     (case st of (imageIndex, images) \<Rightarrow>
        if is_pixel tag then ([], (imageIndex, images))
        else (placeholder (imageIndex + 1) (attr_alt tag),
              (imageIndex + 1, images @ [image_of (imageIndex + 1) tag])))"

record extracted =
  images :: "InlineImage list"
  html :: string

definition extractInlineImages :: "string \<Rightarrow> extracted" where
  "extractInlineImages h =
     (if h = [] then \<lparr>images = [], html = []\<rparr>
      else (case replace_cb img_pattern image_callback h (0, []) of
              (modified, (imageIndex, imgs)) \<Rightarrow> \<lparr>images = imgs, html = modified\<rparr>))"

section \<open>Content normalizer: stripHtml\<close>

text \<open>\<^verbatim>\<open>text.slice(0, n)\<close> for an integer \<open>n\<close>; a negative \<open>n\<close> counts from the end.\<close>

definition slice0 :: "int \<Rightarrow> string \<Rightarrow> string" where
  "slice0 n s = (if n \<ge> 0 then take (nat n) s else take (length s - nat (- n)) s)"

definition not_gt :: regex where
  "not_gt = Star (Sat (\<lambda>c. c \<noteq> CHR ''>''))"

definition not_dq :: regex where
  "not_dq = Star (Sat (\<lambda>c. c \<noteq> DQ))"

definition to_end :: "regex list" where
  "to_end = [Star (Sat (\<lambda>c. True)), Eol]"

text \<open>\<^verbatim>\<open>htmlQuotePatterns\<close> (lines 175-180).\<close>

definition div_class_pattern :: "string \<Rightarrow> regex" where
  "div_class_pattern cls =
     seqs ([lit_ci ''<div'', Sat is_space, not_gt, lit_ci ''class='', chr DQ, not_dq,
            lit_ci cls, not_dq, chr DQ, not_gt, chr CHR ''>''] @ to_end)"

definition htmlQuotePatterns :: "regex list" where
  "htmlQuotePatterns =
     [seqs ([lit_ci ''<blockquote'', not_gt, chr CHR ''>''] @ to_end),
      div_class_pattern ''gmail_quote'',
      seqs ([lit_ci ''<div'', Sat is_space, not_gt, lit_ci ''id='', chr DQ,
             lit_ci ''appendonsend'', chr DQ, not_gt, chr CHR ''>''] @ to_end),
      div_class_pattern ''yahoo_quoted'']"

text \<open>The loop over the patterns (lines 182-189): the first pattern whose leftmost match
  begins after index 50 cuts the text there.\<close>

fun cut_quote :: "regex list \<Rightarrow> string \<Rightarrow> string" where
  "cut_quote [] text = text"
| "cut_quote (pat # rest) text =
     (case find_at pat None text of
        Some (i, m, t) \<Rightarrow> if i > 50 then take i text else cut_quote rest text
      | None \<Rightarrow> cut_quote rest text)"

text \<open>\<^verbatim>\<open>/<br\s*\/?>/gi\<close>, \<^verbatim>\<open>/<\/(p|div|li|tr|h[1-6])>/gi\<close>, \<^verbatim>\<open>/<[^>]+>/g\<close>, \<^verbatim>\<open>/[ \t]+/g\<close>,
  \<^verbatim>\<open>/\n{3,}/g\<close>.\<close>

definition br_pattern :: regex where
  "br_pattern = seqs [lit_ci ''<br'', Star (Sat is_space), Opt (chr CHR ''/''), chr CHR ''>'']"

definition close_block_pattern :: regex where
  "close_block_pattern =
     seqs [lit_ci ''</'',
           alts [lit_ci ''p'', lit_ci ''div'', lit_ci ''li'', lit_ci ''tr'',
                 Seq (chr_ci CHR ''h'') (Sat (\<lambda>c. c \<in> set ''123456''))],
           chr CHR ''>'']"

definition tag_pattern :: regex where
  "tag_pattern = seqs [chr CHR ''<'', Plus (Sat (\<lambda>c. c \<noteq> CHR ''>'')), chr CHR ''>'']"

definition blanks_pattern :: regex where
  "blanks_pattern = Plus (Sat (\<lambda>c. c = CHR '' '' \<or> c = CHR 0x09))"

definition newlines_pattern :: regex where
  "newlines_pattern = Seq (rep 3 (chr NL)) (Star (chr NL))"

definition decode_entities :: "string \<Rightarrow> string" where
  "decode_entities text =
     replace_all (lit ''&nbsp;'') '' '' None
       (replace_all (lit ''&#39;'') [SQ] None
         (replace_all (lit ''&quot;'') [DQ] None
           (replace_all (lit ''&gt;'') ''>'' None
             (replace_all (lit ''&lt;'') ''<'' None
               (replace_all (lit ''&amp;'') ''&'' None text)))))"

text \<open>Lines 191-215 of \<^verbatim>\<open>stripHtml\<close>, which the two versions of the function share.\<close>

definition strip_tags :: "string \<Rightarrow> string" where
  "strip_tags text =
     trim (replace_all newlines_pattern [NL, NL] None
       (replace_all blanks_pattern '' '' None
         (decode_entities
           (replace_all tag_pattern [] None
             (replace_all close_block_pattern [NL] None
               (replace_all br_pattern [NL] None text))))))"

text \<open>\<^verbatim>\<open>maxLength ? text.slice(0, maxLength) : text\<close>; \<open>None\<close> is \<^verbatim>\<open>undefined\<close>.\<close>

definition cap_length :: "int option \<Rightarrow> string \<Rightarrow> string" where
  "cap_length maxLength text =
     (case maxLength of None \<Rightarrow> text | Some n \<Rightarrow> if n = 0 then text else slice0 n text)"

text \<open>\<^verbatim>\<open>stripHtml\<close> with the removal of quoted markup (lines 166-218 of the pipeline file).\<close>

definition stripHtml :: "string \<Rightarrow> int option \<Rightarrow> string" where
  "stripHtml h maxLength =
     (if h = [] then [] else cap_length maxLength (strip_tags (cut_quote htmlQuotePatterns h)))"

text \<open>\<^verbatim>\<open>stripHtml\<close> of \<^verbatim>\<open>utils/html-stripper.ts\<close> (lines 5-37), without that removal.\<close>

definition stripHtml_plain :: "string \<Rightarrow> int option \<Rightarrow> string" where
  "stripHtml_plain h maxLength =
     (if h = [] then [] else cap_length maxLength (strip_tags h))"

section \<open>Content normalizer: stripQuotedContent\<close>

text \<open>\<^verbatim>\<open>text.split('\n')\<close>\<close>

fun split_nl :: "string \<Rightarrow> string list" where
  "split_nl [] = [[]]"
| "split_nl (c # cs) =
     (if c = NL then [] # split_nl cs
      else (case split_nl cs of [] \<Rightarrow> [[c]] | l # ls \<Rightarrow> (c # l) # ls))"

definition dashes :: "regex list" where
  "dashes = [rep 3 (chr CHR ''-''), Star (chr CHR ''-'')]"

definition spaces :: regex where
  "spaces = Star (Sat is_space)"

definition spaces1 :: regex where
  "spaces1 = Plus (Sat is_space)"

definition dots_10_100 :: "regex list" where
  "dots_10_100 = [rep 10 (Sat is_dot), upto 90 (Sat is_dot)]"

text \<open>Pattern 1 (lines 240-241): \<^verbatim>\<open>/^-{3,}\s*(Forwarded message|Original Message)\s*-{3,}$/i\<close>
  and \<^verbatim>\<open>/^Begin forwarded message:\s*$/i\<close>.\<close>

definition forward_marker :: regex where
  "forward_marker =
     seqs ([Bol] @ dashes @
           [spaces, Alt (lit_ci ''Forwarded message'') (lit_ci ''Original Message''), spaces] @
           dashes @ [Eol])"

definition begin_forwarded :: regex where
  "begin_forwarded = seqs [Bol, lit_ci ''Begin forwarded message:'', spaces, Eol]"

text \<open>Pattern 2 (lines 247-249): \<^verbatim>\<open>/^On\s+.{10,100}\s+wrote:\s*$/\<close>,
  \<^verbatim>\<open>/^Am\s+.{10,100}\s+schrieb\s+.+:\s*$/\<close>, \<^verbatim>\<open>/^Le\s+.{10,100}\s+a\s+.+crit\s*:\s*$/i\<close>.\<close>

definition on_wrote :: regex where
  "on_wrote = seqs ([Bol, lit ''On'', spaces1] @ dots_10_100 @ [spaces1, lit ''wrote:'', spaces, Eol])"

definition am_schrieb :: regex where
  "am_schrieb =
     seqs ([Bol, lit ''Am'', spaces1] @ dots_10_100 @
           [spaces1, lit ''schrieb'', spaces1, Plus (Sat is_dot), chr CHR '':'', spaces, Eol])"

definition le_ecrit :: regex where
  "le_ecrit =
     seqs ([Bol, lit_ci ''Le'', spaces1] @ dots_10_100 @
           [spaces1, chr_ci CHR ''a'', spaces1, Plus (Sat is_dot), lit_ci ''crit'', spaces,
            chr CHR '':'', spaces, Eol])"

text \<open>Pattern 3 (lines 256 and 259): \<^verbatim>\<open>/^(Von|From|De|Da|Di):\s+.+/\<close> and
  \<^verbatim>\<open>/^(Datum|Date|Fecha|Data):\s+.+/\<close>.\<close>

definition from_header :: regex where
  "from_header =
     seqs [Bol, alts [lit ''Von'', lit ''From'', lit ''De'', lit ''Da'', lit ''Di''],
           chr CHR '':'', spaces1, Plus (Sat is_dot)]"

definition date_header :: regex where
  "date_header =
     seqs [Bol, alts [lit ''Datum'', lit ''Date'', lit ''Fecha'', lit ''Data''],
           chr CHR '':'', spaces1, Plus (Sat is_dot)]"

text \<open>The inner loop (lines 257-263): \<open>j\<close> runs from \<open>i + 1\<close> while
  \<open>j < Math.min(i + 8, lines.length)\<close>.\<close>

definition date_follows :: "string list \<Rightarrow> nat \<Rightarrow> bool" where
  "date_follows lines i =
     list_ex (\<lambda>j. test date_header (trim (lines ! j))) [i + 1 ..< min (i + 8) (length lines)]"

text \<open>The body of the outer loop for index \<open>i\<close> (lines 236-266): whether it sets
  \<^verbatim>\<open>cutIndex\<close> to \<open>i\<close>.\<close>

definition is_cut :: "string list \<Rightarrow> nat \<Rightarrow> bool" where
  "is_cut lines i =
     (let line = trim (lines ! i) in
        test forward_marker line \<or> test begin_forwarded line
      \<or> test on_wrote line \<or> test am_schrieb line \<or> test le_ecrit line
      \<or> (test from_header line \<and> date_follows lines i))"

text \<open>The outer loop from index \<open>i\<close> on; \<open>None\<close> is \<^verbatim>\<open>cutIndex === -1\<close>.\<close>

function first_cut :: "string list \<Rightarrow> nat \<Rightarrow> nat option" where
  "first_cut lines i =
     (if i < length lines then (if is_cut lines i then Some i else first_cut lines (Suc i))
      else None)"
  by pat_completeness auto
termination
  by (relation "measure (\<lambda>(lines, i). length lines - i)") auto

declare first_cut.simps [simp del]

definition removed_notice :: "nat \<Rightarrow> string" where
  "removed_notice removedChars =
     [NL, NL] @ ''[Quoted/forwarded content removed - '' @ show_nat removedChars @ '' chars]''"

text \<open>\<^verbatim>\<open>stripQuotedContent\<close> (lines 230-281).\<close>

definition stripQuotedContent :: "string \<Rightarrow> string" where
  "stripQuotedContent text =
     (if text = [] then []
      else
        let lines = split_nl text in
        (case first_cut lines 0 of
           None \<Rightarrow> text
         | Some cutIndex \<Rightarrow>
             let kept = trim (join [NL] (take cutIndex lines)) in
             if length kept < 10 then text
             else
               let removedChars = length (join [NL] (drop cutIndex lines)) in
               if removedChars < 100 then text
               else kept @ removed_notice removedChars))"

section \<open>Vocabulary of the properties\<close>

text \<open>The functions and example values in which the properties of the following sections
  are stated, grouped by the section that uses them.\<close>

subsection \<open>Reconciliation: merge, dedupe, sort, limit\<close>

text \<open>
  The merged sequence as the specification words it: the conversations of the fulfilled
  branches in branch order, each kept unless its id was already added.
\<close>

fun keep_first :: "int set \<Rightarrow> conversation list \<Rightarrow> conversation list" where
  "keep_first seen [] = []"
| "keep_first seen (c # cs) =
     (if conv_id c \<in> seen then keep_first seen cs
      else c # keep_first (insert (conv_id c) seen) cs)"

fun fulfilled_conversations :: "(status \<times> response settled) list \<Rightarrow> conversation list" where
  "fulfilled_conversations [] = []"
| "fulfilled_conversations ((s, Fulfilled v) # rest) = response_conversations v @ fulfilled_conversations rest"
| "fulfilled_conversations ((s, Rejected r) # rest) = fulfilled_conversations rest"

text \<open>A run with three branches: the pending branch repeats id 1 of the active branch, two
  records share a creation time, and the limit is 2.\<close>

definition ex_conv :: "int \<Rightarrow> int \<Rightarrow> conversation" where
  "ex_conv i t = \<lparr>conv_id = i, number = 100 + i, subject = ''s'', createdAt = t\<rparr>"

definition ex_response :: "conversation list \<Rightarrow> nat \<Rightarrow> response" where
  "ex_response cs n = \<lparr>embedded_conversations = Some cs, response_page = Some \<lparr>totalElements = Some n\<rparr>\<rparr>"

fun ex_get :: "status \<Rightarrow> response settled" where
  "ex_get Active = Fulfilled (ex_response [ex_conv 1 50, ex_conv 2 70] 10)"
| "ex_get Pending = Fulfilled (ex_response [ex_conv 1 50, ex_conv 3 70] 4)"
| "ex_get Closed = Fulfilled (ex_response [ex_conv 4 60] 5)"
| "ex_get Spam = Rejected (OtherError ''not requested'')"

subsection \<open>Partial failure: classification and accounting\<close>

text \<open>
  The error policy as the specification words it: an error that is not a recognized API
  error, or one classified unauthorized or invalid input, is fatal; the first fatal error
  in branch order is the one that surfaces.
\<close>

fun fatal :: "reason \<Rightarrow> bool" where
  "fatal (OtherError m) = True"
| "fatal (ApiError e) = (code e = UNAUTHORIZED \<or> code e = INVALID_INPUT)"

fun first_fatal :: "reason option list \<Rightarrow> reason option" where
  "first_fatal [] = None"
| "first_fatal (None # rest) = first_fatal rest"
| "first_fatal (Some r # rest) = (if fatal r then Some r else first_fatal rest)"

fun rejection :: "'a settled \<Rightarrow> reason option" where
  "rejection (Fulfilled v) = None"
| "rejection (Rejected r) = Some r"

fun successful_totals :: "(status \<times> response settled) list \<Rightarrow> (status \<times> nat) list" where
  "successful_totals [] = []"
| "successful_totals ((s, Fulfilled v) # rest) = (s, reported_total v) # successful_totals rest"
| "successful_totals ((s, Rejected r) # rest) = successful_totals rest"

fun failed_entries :: "(status \<times> response settled) list \<Rightarrow> failed_status list" where
  "failed_entries [] = []"
| "failed_entries ((s, Fulfilled v) # rest) = failed_entries rest"
| "failed_entries ((s, Rejected (ApiError e)) # rest) =
     \<lparr>failed_name = s, failed_message = message e, failed_code = code e\<rparr> # failed_entries rest"
| "failed_entries ((s, Rejected (OtherError m)) # rest) = failed_entries rest"

fun thrown :: "reason + 'a \<Rightarrow> reason option" where
  "thrown (Inl r) = Some r"
| "thrown (Inr v) = None"

definition branch_outcome ::
    "search_context \<Rightarrow> (string option \<Rightarrow> status \<Rightarrow> response settled) \<Rightarrow> status \<Rightarrow> branch_result" where
  "branch_outcome ctx fetch s =
     (case searchSingleStatus ctx fetch s of Inr r \<Rightarrow> r | Inl e \<Rightarrow> failed_branch ctx s)"

fun failure_log ::
    "search_context \<Rightarrow> (string option \<Rightarrow> status \<Rightarrow> response settled) \<Rightarrow> status list \<Rightarrow> log_entry list" where
  "failure_log ctx fetch [] = []"
| "failure_log ctx fetch (s # rest) =
     (case searchSingleStatus ctx fetch s of
        Inl (ApiError e) \<Rightarrow>
          \<lparr>log_text = ''Status search failed - partial results will be returned'',
           log_status = s, log_code = Some (code e), log_message = message e\<rparr> # failure_log ctx fetch rest
      | _ \<Rightarrow> failure_log ctx fetch rest)"

definition ex_rate_limited :: reason where
  "ex_rate_limited = ApiError \<lparr>code = RATE_LIMIT, message = ''Too many requests''\<rparr>"

definition ex_unauthorized :: reason where
  "ex_unauthorized = ApiError \<lparr>code = UNAUTHORIZED, message = ''Invalid token''\<rparr>"

text \<open>Active and closed succeed with totals 10 and 5, pending is rate limited.\<close>

fun ex_partial :: "string option \<Rightarrow> status \<Rightarrow> response settled" where
  "ex_partial q Active = Fulfilled (ex_response [ex_conv 1 50, ex_conv 2 70] 10)"
| "ex_partial q Pending = Rejected ex_rate_limited"
| "ex_partial q Closed = Fulfilled (ex_response [ex_conv 4 60] 5)"
| "ex_partial q Spam = Rejected (OtherError ''not requested'')"

text \<open>Active succeeds, pending is rate limited, closed is unauthorized.\<close>

fun ex_critical :: "string option \<Rightarrow> status \<Rightarrow> response settled" where
  "ex_critical q Active = Fulfilled (ex_response [ex_conv 1 50] 10)"
| "ex_critical q Pending = Rejected ex_rate_limited"
| "ex_critical q Closed = Rejected ex_unauthorized"
| "ex_critical q Spam = Rejected (OtherError ''not requested'')"


definition ex_ctx :: search_context where
  "ex_ctx = \<lparr>ctx_statuses = [Active, Pending, Closed], searchQuery = ''(body:x)'',
              ctx_createdAfter = ''2024-01-15T00:00:00Z'', limitPerStatus = 25,
              ctx_createdBefore = None\<rparr>"








subsection \<open>The created-date clause\<close>


subsection \<open>Inline image extraction: indices, pixels, placeholders\<close>

text \<open>
  The output as the specification words it: the matches of the image pattern in document
  order (\<open>matches\<close>); those that are not tracking pixels (\<open>retained\<close>); and the text in which
  a copied code unit stays, a tracking pixel leaves nothing and a retained image becomes
  the placeholder with the next number (\<open>splice\<close>). A source is fetchable when it begins
  with \<^verbatim>\<open>http://\<close> or \<^verbatim>\<open>https://\<close>, in either case of the letters, as the pattern's \<^verbatim>\<open>i\<close> flag
  has it.
\<close>

definition starts_with_ci :: "string \<Rightarrow> string \<Rightarrow> bool" where
  "starts_with_ci p s = (length p \<le> length s \<and> map lower (take (length p) s) = map lower p)"

fun matches :: "(char + string) list \<Rightarrow> string list" where
  "matches [] = []"
| "matches (Inl c # ts) = matches ts"
| "matches (Inr m # ts) = m # matches ts"

fun splice :: "nat \<Rightarrow> (char + string) list \<Rightarrow> string" where
  "splice n [] = []"
| "splice n (Inl c # ts) = c # splice n ts"
| "splice n (Inr tag # ts) =
     (if is_pixel tag then splice n ts
      else placeholder (Suc n) (attr_alt tag) @ splice (Suc n) ts)"

definition retained :: "string \<Rightarrow> string list" where
  "retained h = filter (\<lambda>tag. \<not> is_pixel tag) (matches (tokens img_pattern None h))"

text \<open>A body with a retained image, a tracking pixel and a second retained image.\<close>

definition ex_body :: string where
  "ex_body = ''<p>Hi</p><img src='' @ [DQ] @ ''https://a.com/s.png'' @ [DQ] @ '' alt='' @ [DQ] @
     ''err'' @ [DQ] @ '' width='' @ [DQ] @ ''600'' @ [DQ] @ '' height='' @ [DQ] @ ''400'' @ [DQ] @
     ''><p>See</p><IMG width=1 height=1 src='' @ [DQ] @ ''http://t/p.gif'' @ [DQ] @
     ''><img src='' @ [SQ] @ ''cid:1'' @ [SQ] @ '' alt='' @ [SQ] @ ''x'' @ [SQ] @ ''/>''"

text \<open>A tracking pixel whose tag also has a \<^verbatim>\<open>data-width\<close> attribute before its \<^verbatim>\<open>width\<close>; the
  same pixel without that attribute; and an image of 600 by 400 whose alt text contains
  \<^verbatim>\<open>width=1 height=1\<close>.\<close>

definition ex_data_width :: string where
  "ex_data_width = ''<img data-width='' @ [DQ] @ ''600'' @ [DQ] @ '' width='' @ [DQ] @ ''1'' @ [DQ] @
     '' height='' @ [DQ] @ ''1'' @ [DQ] @ '' src='' @ [DQ] @ ''https://t.example/p.gif'' @ [DQ] @ ''>''"

definition ex_plain_pixel :: string where
  "ex_plain_pixel = ''<img width='' @ [DQ] @ ''1'' @ [DQ] @ '' height='' @ [DQ] @ ''1'' @ [DQ] @
     '' src='' @ [DQ] @ ''https://t.example/p.gif'' @ [DQ] @ ''>''"

definition ex_alt_text :: string where
  "ex_alt_text = ''<img alt='' @ [DQ] @ ''width=1 height=1'' @ [DQ] @ '' width='' @ [DQ] @ ''600'' @ [DQ] @
     '' height='' @ [DQ] @ ''400'' @ [DQ] @ '' src='' @ [DQ] @ ''https://example.com/a.png'' @ [DQ] @ ''>''"

subsection \<open>The lookahead of the header pair\<close>

text \<open>A reply followed by a forwarded header block: a \<^verbatim>\<open>From:\<close> line, then \<open>k\<close> blank lines,
  then a \<^verbatim>\<open>Date:\<close> line and a long subject line.\<close>

definition ex_forward :: "nat \<Rightarrow> string" where
  "ex_forward k =
     ''Hello there, thanks.'' @ [NL] @ ''From: alice@example.com'' @ [NL] @ replicate k NL @
     ''Date: Mon, 1 Jan 2024 10:00:00'' @ [NL] @
     ''Subject: a long subject line that pads the removed part beyond one hundred characters''"

subsection \<open>Re-applying a stage to its own output\<close>

text \<open>\<^verbatim>\<open>trim\<close> is the removal of leading whitespace followed by the removal of trailing
  whitespace.\<close>

definition ltrim :: "string \<Rightarrow> string" where
  "ltrim s = dropWhile is_space s"

definition rtrim :: "string \<Rightarrow> string" where
  "rtrim s = rev (dropWhile is_space (rev s))"

definition notice_text :: "nat \<Rightarrow> string" where
  "notice_text n = ''[Quoted/forwarded content removed - '' @ show_nat n @ '' chars]''"

definition marker_line :: "string \<Rightarrow> bool" where
  "marker_line line \<longleftrightarrow>
     test forward_marker line \<or> test begin_forwarded line
   \<or> test on_wrote line \<or> test am_schrieb line \<or> test le_ecrit line"

text \<open>A pattern whose every match begins with a code unit satisfying \<open>P\<close>.\<close>

definition starts_on :: "(char \<Rightarrow> bool) \<Rightarrow> regex \<Rightarrow> bool" where
  "starts_on P r \<longleftrightarrow> (\<forall>p. rm r (p, []) = []) \<and> (\<forall>p c u. \<not> P c \<longrightarrow> rm r (p, c # u) = [])"

text \<open>The two whitespace replacements of \<^verbatim>\<open>stripHtml\<close> as functions on the text, and the
  shape of their results: every run of blanks is one space, and no three line feeds are
  adjacent.\<close>

definition is_blank :: "char \<Rightarrow> bool" where
  "is_blank c = (c = CHR '' '' \<or> c = CHR 0x09)"

definition is_nl :: "char \<Rightarrow> bool" where
  "is_nl c = (c = NL)"

function collapse :: "string \<Rightarrow> string" where
  "collapse [] = []"
| "collapse (x # u) =
     (if is_blank x then CHR '' '' # collapse (dropWhile is_blank u) else x # collapse u)"
  by pat_completeness auto
termination
  by (relation "measure length") (auto simp: length_dropWhile_le less_Suc_eq_le)

function cap :: "string \<Rightarrow> string" where
  "cap [] = []"
| "cap (x # u) =
     (if x = NL \<and> take 2 u = [NL, NL] then NL # NL # cap (dropWhile is_nl (drop 2 u))
      else x # cap u)"
  by pat_completeness auto
termination
proof (relation "measure length")
  show "wf (measure length)" by simp
next
  fix x :: char and u :: string
  have "length (dropWhile is_nl (drop 2 u)) \<le> length (drop 2 u)" by (rule length_dropWhile_le)
  then show "(dropWhile is_nl (drop 2 u), x # u) \<in> measure length" by simp
next
  fix x :: char and u :: string
  show "(u, x # u) \<in> measure length" by simp
qed

fun tidy_blanks :: "string \<Rightarrow> bool" where
  "tidy_blanks [] = True"
| "tidy_blanks (x # u) =
     ((is_blank x \<longrightarrow> x = CHR '' '' \<and> (case u of [] \<Rightarrow> True | y # v \<Rightarrow> \<not> is_blank y))
      \<and> tidy_blanks u)"

fun tidy_newlines :: "string \<Rightarrow> bool" where
  "tidy_newlines [] = True"
| "tidy_newlines (x # u) = (\<not> (x = NL \<and> take 2 u = [NL, NL]) \<and> tidy_newlines u)"

section \<open>Reconciliation: merge, dedupe, sort, limit\<close>

lemma keep_first_append:
  "keep_first seen (a @ b) = keep_first seen a @ keep_first (seen \<union> conv_id ` set a) b"
proof (induction a arbitrary: seen)
  case Nil
  then show ?case by simp
next
  case (Cons c a)
  have "insert (conv_id c) (seen \<union> conv_id ` set a) = insert (conv_id c) seen \<union> conv_id ` set a"
    by auto
  moreover have "conv_id c \<in> seen \<Longrightarrow> insert (conv_id c) (seen \<union> conv_id ` set a) = seen \<union> conv_id ` set a"
    by auto
  ultimately show ?case using Cons.IH by simp
qed

lemma keep_first_ids: "conv_id ` set (keep_first seen cs) = conv_id ` set cs - seen"
  by (induction cs arbitrary: seen) auto

lemma keep_first_distinct: "distinct (map conv_id (keep_first seen cs))"
proof (induction cs arbitrary: seen)
  case Nil
  then show ?case by simp
next
  case (Cons c cs)
  have "conv_id c \<notin> conv_id ` set (keep_first (insert (conv_id c) seen) cs)"
    by (simp add: keep_first_ids)
  then show ?case using Cons.IH by simp
qed

lemma push_unseen_conversations:
  "conversations (push_unseen cs st) = conversations st @ keep_first (seenIds st) cs"
  by (induction cs arbitrary: st) auto

lemma push_unseen_seenIds:
  "seenIds (push_unseen cs st) = seenIds st \<union> conv_id ` set cs"
  by (induction cs arbitrary: st) auto

lemma push_unseen_others:
  "failedStatuses (push_unseen cs st) = failedStatuses st"
  "totalAvailable (push_unseen cs st) = totalAvailable st"
  "totalByStatus (push_unseen cs st) = totalByStatus st"
  by (induction cs arbitrary: st) auto

lemma merge_loop_conversations:
  "merge_loop rs st = Inr st' \<Longrightarrow>
     conversations st' = conversations st @ keep_first (seenIds st) (fulfilled_conversations rs)
     \<and> seenIds st' = seenIds st \<union> conv_id ` set (fulfilled_conversations rs)"
proof (induction rs arbitrary: st)
  case Nil
  then show ?case by simp
next
  case (Cons sr rs)
  obtain s r where sr: "sr = (s, r)" by (cases sr)
  show ?case
  proof (cases r)
    case (Fulfilled v)
    let ?st1 = "push_unseen (response_conversations v)
       (st\<lparr>totalByStatus := AList.update s (reported_total v) (totalByStatus st),
           totalAvailable := totalAvailable st + reported_total v\<rparr>)"
    from Cons.prems sr Fulfilled have "merge_loop rs ?st1 = Inr st'" by simp
    from Cons.IH[OF this] show ?thesis
      using sr Fulfilled
      by (simp add: push_unseen_conversations push_unseen_seenIds keep_first_append Un_assoc image_Un)
  next
    case (Rejected x)
    show ?thesis
    proof (cases x)
      case (ApiError e)
      with Cons.prems sr Rejected
      have "merge_loop rs (st\<lparr>failedStatuses := failedStatuses st @
             [\<lparr>failed_name = s, failed_message = message e, failed_code = code e\<rparr>]\<rparr>) = Inr st'"
        by (simp split: if_splits)
      from Cons.IH[OF this] show ?thesis using sr Rejected ApiError by simp
    next
      case (OtherError m)
      with Cons.prems sr Rejected show ?thesis by simp
    qed
  qed
qed

lemma distinct_map_insort_key:
  "distinct (map g (insort_key f x xs)) \<longleftrightarrow> g x \<notin> g ` set xs \<and> distinct (map g xs)"
  by (induction xs) (auto simp: set_insort_key)

lemma distinct_map_sort_key:
  "distinct (map g (sort_key f xs)) \<longleftrightarrow> distinct (map g xs)"
  by (induction xs) (auto simp: distinct_map_insort_key)

lemma sort_desc_sorted: "sorted_wrt (\<lambda>a b. createdAt b \<le> createdAt a) (sort_desc cs)"
proof -
  have "sorted (map (\<lambda>c. - createdAt c) (sort_key (\<lambda>c. - createdAt c) cs))"
    by (rule sorted_sort_key)
  then show ?thesis by (simp add: sort_desc_def sorted_map)
qed

lemma sort_desc_stable:
  "filter (\<lambda>c. createdAt c = t) (sort_desc cs) = filter (\<lambda>c. createdAt c = t) cs"
proof -
  have "filter (\<lambda>c. - createdAt c = - t) (sort_key (\<lambda>c. - createdAt c) cs)
      = filter (\<lambda>c. - createdAt c = - t) cs"
    by (rule sort_key_stable)
  then show ?thesis by (simp add: sort_desc_def)
qed

lemma apply_limit_take: "apply_limit lim cs = take (effectiveLimit lim) cs"
  by (simp add: apply_limit_def)

text \<open>
  C1. For every outcome of the three status branches and every requested limit (at least 1,
  as the input schema has it), when the multi-status search returns: the branches are
  taken in the order active, pending, closed; the merged sequence holds the conversations
  of the fulfilled branches, each appended only if its id was not added before; it is
  sorted by creation time, most recent first, records of equal creation time keeping
  their merge order; the limit is applied to the sorted sequence. The returned list has
  no duplicate id, is non-increasing in creation time, and is no longer than the limit.
\<close>

theorem reconciliation_merge_sort_limit:
  assumes "1 \<le> lim" and "multi_status fetch lim = Inr (convs, pg)"
  shows "convs = take lim (sort_desc (keep_first {} (fulfilled_conversations (allSettled fetch statuses))))
       \<and> allSettled fetch statuses = [(Active, fetch Active), (Pending, fetch Pending), (Closed, fetch Closed)]
       \<and> (\<forall>t. filter (\<lambda>c. createdAt c = t) (sort_desc (keep_first {} (fulfilled_conversations (allSettled fetch statuses))))
             = filter (\<lambda>c. createdAt c = t) (keep_first {} (fulfilled_conversations (allSettled fetch statuses))))
       \<and> distinct (map conv_id convs)
       \<and> sorted_wrt (\<lambda>a b. createdAt b \<le> createdAt a) convs
       \<and> length convs \<le> lim"
proof -
  let ?rs = "allSettled fetch statuses"
  let ?m = "keep_first {} (fulfilled_conversations ?rs)"
  from assms(2) obtain st where st: "merge_loop ?rs init_state = Inr st"
    and convs: "convs = merged_conversations lim st"
    by (auto simp: multi_status_def Let_def split: sum.splits)
  from merge_loop_conversations[OF st] have m: "conversations st = ?m"
    by (simp add: init_state_def)
  from assms(1) have el: "effectiveLimit lim = lim" by (simp add: effectiveLimit_def)
  have c: "convs = take lim (sort_desc ?m)"
    using convs m el by (simp add: merged_conversations_def apply_limit_take)
  have d: "distinct (map conv_id (sort_desc ?m))"
    by (simp add: sort_desc_def distinct_map_sort_key keep_first_distinct)
  have "distinct (map conv_id convs)"
    using distinct_take[OF d, of lim] by (simp add: c take_map)
  moreover have "sorted_wrt (\<lambda>a b. createdAt b \<le> createdAt a) convs"
    unfolding c by (rule sorted_wrt_take[OF sort_desc_sorted])
  moreover have "length convs \<le> lim" unfolding c by simp
  moreover have "allSettled fetch statuses = [(Active, fetch Active), (Pending, fetch Pending), (Closed, fetch Closed)]"
    by (simp add: allSettled_def statuses_def)
  ultimately show ?thesis using c sort_desc_stable by blast
qed

theorem reconciliation_merge_sort_limit_witness:
  "(1::nat) \<le> 2
   \<and> (\<exists>pg. multi_status ex_get 2 = Inr ([ex_conv 2 70, ex_conv 3 70], pg))
   \<and> keep_first {} (fulfilled_conversations (allSettled ex_get statuses))
       = [ex_conv 1 50, ex_conv 2 70, ex_conv 3 70, ex_conv 4 60]
   \<and> distinct (map conv_id [ex_conv 2 70, ex_conv 3 70])
   \<and> sorted_wrt (\<lambda>a b. createdAt b \<le> createdAt a) [ex_conv 2 70, ex_conv 3 70]
   \<and> length [ex_conv 2 70, ex_conv 3 70] \<le> (2::nat)"
proof -
  have e: "map_sum id fst (multi_status ex_get 2) = Inr [ex_conv 2 70, ex_conv 3 70]"
    by code_simp
  then obtain pg where m: "multi_status ex_get 2 = Inr ([ex_conv 2 70, ex_conv 3 70], pg)"
    by (cases "multi_status ex_get 2") auto
  have k: "keep_first {} (fulfilled_conversations (allSettled ex_get statuses))
       = [ex_conv 1 50, ex_conv 2 70, ex_conv 3 70, ex_conv 4 60]"
    by code_simp
  have l: "(1::nat) \<le> 2" by simp
  from reconciliation_merge_sort_limit[OF l m] m k l show ?thesis by blast
qed

section \<open>Partial failure: classification and accounting\<close>

lemma update_fresh: "k \<notin> fst ` set al \<Longrightarrow> AList.update k v al = al @ [(k, v)]"
  by (induction al) auto

lemma successful_totals_keys: "fst ` set (successful_totals rs) \<subseteq> fst ` set rs"
  by (induction rs rule: successful_totals.induct) auto

lemma merge_loop_Inl:
  "merge_loop rs st = Inl r \<longleftrightarrow> first_fatal (map (rejection \<circ> snd) rs) = Some r"
proof (induction rs arbitrary: st)
  case Nil
  then show ?case by simp
next
  case (Cons sr rs)
  obtain s x where sr: "sr = (s, x)" by (cases sr)
  show ?case
  proof (cases x)
    case (Fulfilled v)
    then show ?thesis using sr Cons.IH by simp
  next
    case (Rejected y)
    then show ?thesis using sr Cons.IH by (cases y) auto
  qed
qed

lemma merge_loop_Inr:
  assumes "merge_loop rs st = Inr st'" and "distinct (map fst rs)"
    and "fst ` set (totalByStatus st) \<inter> fst ` set rs = {}"
  shows "totalAvailable st' = totalAvailable st + sum_list (map snd (successful_totals rs))
       \<and> totalByStatus st' = totalByStatus st @ successful_totals rs
       \<and> failedStatuses st' = failedStatuses st @ failed_entries rs"
  using assms
proof (induction rs arbitrary: st)
  case Nil
  then show ?case by simp
next
  case (Cons sr rs)
  obtain s x where sr: "sr = (s, x)" by (cases sr)
  from Cons.prems(2) sr have d: "distinct (map fst rs)" and sn: "s \<notin> fst ` set rs" by auto
  from Cons.prems(3) sr have fresh: "s \<notin> fst ` set (totalByStatus st)"
    and disj: "fst ` set (totalByStatus st) \<inter> fst ` set rs = {}" by auto
  show ?case
  proof (cases x)
    case (Fulfilled v)
    let ?st0 = "st\<lparr>totalByStatus := AList.update s (reported_total v) (totalByStatus st),
           totalAvailable := totalAvailable st + reported_total v\<rparr>"
    let ?st1 = "push_unseen (response_conversations v) ?st0"
    from Cons.prems(1) sr Fulfilled have run: "merge_loop rs ?st1 = Inr st'" by simp
    have tb: "totalByStatus ?st1 = totalByStatus st @ [(s, reported_total v)]"
      using fresh by (simp add: push_unseen_others update_fresh)
    have "fst ` set (totalByStatus ?st1) \<inter> fst ` set rs = {}"
      using disj sn by (auto simp: tb)
    from Cons.IH[OF run d this] show ?thesis
      using sr Fulfilled tb by (simp add: push_unseen_others)
  next
    case (Rejected y)
    show ?thesis
    proof (cases y)
      case (ApiError e)
      let ?st1 = "st\<lparr>failedStatuses := failedStatuses st @
             [\<lparr>failed_name = s, failed_message = message e, failed_code = code e\<rparr>]\<rparr>"
      from Cons.prems(1) sr Rejected ApiError have run: "merge_loop rs ?st1 = Inr st'"
        by (simp split: if_splits)
      have "fst ` set (totalByStatus ?st1) \<inter> fst ` set rs = {}" using disj by simp
      from Cons.IH[OF run d this] show ?thesis using sr Rejected ApiError by simp
    next
      case (OtherError m)
      with Cons.prems(1) sr Rejected show ?thesis by simp
    qed
  qed
qed

lemma merge_loop_total:
  "(\<exists>st'. merge_loop rs st = Inr st') \<longleftrightarrow> first_fatal (map (rejection \<circ> snd) rs) = None"
proof -
  have "(\<exists>st'. merge_loop rs st = Inr st') \<longleftrightarrow> \<not> (\<exists>r. merge_loop rs st = Inl r)"
    by (cases "merge_loop rs st") auto
  then show ?thesis by (simp add: merge_loop_Inl)
qed

lemma allSettled_keys: "map fst (allSettled get ss) = ss"
  by (simp add: allSettled_def comp_def)

lemma allSettled_rejections: "map (rejection \<circ> snd) (allSettled get ss) = map (rejection \<circ> get) ss"
  by (simp add: allSettled_def comp_def)

lemma multi_status_state:
  assumes "merge_loop (allSettled get statuses) init_state = Inr st"
  shows "totalAvailable st = sum_list (map snd (successful_totals (allSettled get statuses)))"
    and "totalByStatus st = successful_totals (allSettled get statuses)"
    and "failedStatuses st = failed_entries (allSettled get statuses)"
proof -
  have d: "distinct (map fst (allSettled get statuses))"
    by (simp add: allSettled_keys statuses_def)
  have e: "fst ` set (totalByStatus init_state) \<inter> fst ` set (allSettled get statuses) = {}"
    by (simp add: init_state_def)
  from merge_loop_Inr[OF assms d e]
  show "totalAvailable st = sum_list (map snd (successful_totals (allSettled get statuses)))"
    and "totalByStatus st = successful_totals (allSettled get statuses)"
    and "failedStatuses st = failed_entries (allSettled get statuses)"
    by (simp_all add: init_state_def)
qed

lemma multi_status_Inr:
  "multi_status get lim = Inr (convs, pg) \<longleftrightarrow>
     (\<exists>st. merge_loop (allSettled get statuses) init_state = Inr st
         \<and> convs = merged_conversations lim st
         \<and> pg = Info (merged_pagination st (length convs)))"
  by (auto simp: multi_status_def Let_def split: sum.splits)

lemma multi_status_Inl:
  "multi_status get lim = Inl r \<longleftrightarrow> merge_loop (allSettled get statuses) init_state = Inl r"
  by (auto simp: multi_status_def Let_def split: sum.splits)

lemma exec_loop_fst:
  "fst (exec_loop ctx fetch ss (acc, log)) =
     (case first_fatal (map (thrown \<circ> searchSingleStatus ctx fetch) ss) of
        Some r \<Rightarrow> Inl r
      | None \<Rightarrow> Inr (acc @ map (branch_outcome ctx fetch) ss))"
proof (induction ss arbitrary: acc log)
  case Nil
  then show ?case by simp
next
  case (Cons s ss)
  show ?case
  proof (cases "searchSingleStatus ctx fetch s")
    case (Inr r)
    then show ?thesis using Cons.IH by (simp add: branch_outcome_def split: option.splits)
  next
    case (Inl e)
    then show ?thesis using Cons.IH
      by (cases e) (simp_all add: branch_outcome_def split: option.splits)
  qed
qed

lemma exec_loop_log:
  "first_fatal (map (thrown \<circ> searchSingleStatus ctx fetch) ss) = None \<Longrightarrow>
     snd (exec_loop ctx fetch ss (acc, log)) = log @ failure_log ctx fetch ss"
proof (induction ss arbitrary: acc log)
  case Nil
  then show ?case by simp
next
  case (Cons s ss)
  show ?case
  proof (cases "searchSingleStatus ctx fetch s")
    case (Inr r)
    then show ?thesis using Cons by simp
  next
    case (Inl e)
    then show ?thesis using Cons by (cases e) (simp_all split: if_splits)
  qed
qed

lemma searchSingleStatus_status:
  "searchSingleStatus ctx fetch s = Inr r \<Longrightarrow> br_status r = s"
  by (auto simp: searchSingleStatus_def Let_def split: sum.splits settled.splits if_splits)

lemma branch_outcome_status: "br_status (branch_outcome ctx fetch s) = s"
  by (cases "searchSingleStatus ctx fetch s")
     (simp_all add: branch_outcome_def failed_branch_def searchSingleStatus_status)

lemma fatal_iff:
  "fatal r \<longleftrightarrow> \<not> isApiError r \<or> (\<exists>e. r = ApiError e \<and> (code e = UNAUTHORIZED \<or> code e = INVALID_INPUT))"
  by (cases r) auto

lemma nonfatal_iff:
  "\<not> fatal r \<longleftrightarrow> (\<exists>e. r = ApiError e \<and> (code e = RATE_LIMIT \<or> code e = UPSTREAM_ERROR \<or> code e = NOT_FOUND))"
proof (cases r)
  case (ApiError e)
  then show ?thesis by (cases "code e") auto
next
  case (OtherError m)
  then show ?thesis by simp
qed


lemma failed_entries_names:
  "map failed_name (failed_entries (allSettled get ss)) =
     filter (\<lambda>s. \<exists>e. get s = Rejected (ApiError e)) ss"
proof (induction ss)
  case Nil
  then show ?case by (simp add: allSettled_def)
next
  case (Cons s ss)
  then show ?case
  proof (cases "get s")
    case (Fulfilled v)
    then show ?thesis using Cons by (simp add: allSettled_def)
  next
    case (Rejected r)
    then show ?thesis using Cons by (cases r) (simp_all add: allSettled_def)
  qed
qed

lemma successful_totals_names:
  "map fst (successful_totals (allSettled get ss)) = filter (\<lambda>s. \<exists>v. get s = Fulfilled v) ss"
proof (induction ss)
  case Nil
  then show ?case by (simp add: allSettled_def)
next
  case (Cons s ss)
  then show ?case by (cases "get s") (simp_all add: allSettled_def)
qed

lemma merged_convs_subset:
  "set (merged_conversations lim st) \<subseteq> set (conversations st)"
  by (auto simp: merged_conversations_def apply_limit_def sort_desc_def dest: in_set_takeD)

lemma keep_first_subset: "set (keep_first seen cs) \<subseteq> set cs"
  by (induction cs arbitrary: seen) auto



lemma searchConversations_Inr:
  "base_query input = Inr q \<Longrightarrow> searchConversations input fetch = search_statuses input (fetch q)"
  by (simp add: searchConversations_def)





subsection \<open>Results that are not errors\<close>


lemma not_isl_Inr: "\<not> isl x \<Longrightarrow> \<exists>r. x = Inr r"
  by (cases x) auto

subsection \<open>Totals under partial failure\<close>



subsection \<open>Error policy\<close>

text \<open>
  C3. For every branch error during multi-status aggregation: an error that is not a
  recognized API error, or a recognized one classified UNAUTHORIZED or INVALID_INPUT,
  aborts the whole operation, which propagates the first such error in branch order and
  returns no partial result. Every other recognized API error (RATE_LIMIT, UPSTREAM_ERROR,
  NOT_FOUND) is non-fatal: when no branch error is fatal the operation returns; in
  \<^verbatim>\<open>searchConversations\<close> each failed branch is recorded in the errors with its status,
  message and code and the returned conversations come from the fulfilled branches only;
  in \<^verbatim>\<open>executeMultiStatusSearch\<close> each failed branch is logged with its status, code and
  message and contributes an element with no conversations, and every requested status
  has its element.
\<close>

theorem branch_error_policy:
  "(first_fatal (map (rejection \<circ> get) statuses) = Some r \<longrightarrow> multi_status get lim = Inl r)
   \<and> (first_fatal (map (rejection \<circ> get) statuses) = None \<longrightarrow>
        (\<exists>convs p. multi_status get lim = Inr (convs, Info p)
           \<and> set convs \<subseteq> set (fulfilled_conversations (allSettled get statuses))
           \<and> pg_errors p = (if failed_entries (allSettled get statuses) = [] then None
                             else Some (failed_entries (allSettled get statuses)))
           \<and> map failed_name (failed_entries (allSettled get statuses)) =
               filter (\<lambda>s. \<exists>e. get s = Rejected (ApiError e)) statuses))
   \<and> (first_fatal (map (thrown \<circ> searchSingleStatus ctx fetch) (ctx_statuses ctx)) = Some r \<longrightarrow>
        fst (executeMultiStatusSearch ctx fetch) = Inl r)
   \<and> (first_fatal (map (thrown \<circ> searchSingleStatus ctx fetch) (ctx_statuses ctx)) = None \<longrightarrow>
        executeMultiStatusSearch ctx fetch =
          (Inr (map (branch_outcome ctx fetch) (ctx_statuses ctx)),
           failure_log ctx fetch (ctx_statuses ctx)))
   \<and> (fatal r' \<longleftrightarrow> \<not> isApiError r' \<or>
        (\<exists>e. r' = ApiError e \<and> (code e = UNAUTHORIZED \<or> code e = INVALID_INPUT)))
   \<and> (\<not> fatal r' \<longleftrightarrow>
        (\<exists>e. r' = ApiError e \<and> (code e = RATE_LIMIT \<or> code e = UPSTREAM_ERROR \<or> code e = NOT_FOUND)))"
proof -
  let ?rs = "allSettled get statuses"
  have 1: "first_fatal (map (rejection \<circ> get) statuses) = Some r \<longrightarrow> multi_status get lim = Inl r"
    by (simp add: multi_status_Inl merge_loop_Inl allSettled_rejections)
  have 2: "first_fatal (map (rejection \<circ> get) statuses) = None \<longrightarrow>
        (\<exists>convs p. multi_status get lim = Inr (convs, Info p)
           \<and> set convs \<subseteq> set (fulfilled_conversations ?rs)
           \<and> pg_errors p = (if failed_entries ?rs = [] then None else Some (failed_entries ?rs))
           \<and> map failed_name (failed_entries ?rs) =
               filter (\<lambda>s. \<exists>e. get s = Rejected (ApiError e)) statuses)"
  proof
    assume "first_fatal (map (rejection \<circ> get) statuses) = None"
    then obtain st where st: "merge_loop ?rs init_state = Inr st"
      using merge_loop_total[of ?rs init_state] by (auto simp: allSettled_rejections)
    let ?convs = "merged_conversations lim st"
    let ?p = "merged_pagination st (length ?convs)"
    have m: "multi_status get lim = Inr (?convs, Info ?p)"
      using st by (simp add: multi_status_Inr)
    from merge_loop_conversations[OF st]
    have "conversations st = keep_first {} (fulfilled_conversations ?rs)"
      by (simp add: init_state_def)
    then have sub: "set ?convs \<subseteq> set (fulfilled_conversations ?rs)"
      using merged_convs_subset[of lim st] keep_first_subset[of "{}" "fulfilled_conversations ?rs"]
      by auto
    have e: "pg_errors ?p = (if failed_entries ?rs = [] then None else Some (failed_entries ?rs))"
      using multi_status_state(3)[OF st] by (simp add: merged_pagination_def)
    show "\<exists>convs p. multi_status get lim = Inr (convs, Info p)
           \<and> set convs \<subseteq> set (fulfilled_conversations ?rs)
           \<and> pg_errors p = (if failed_entries ?rs = [] then None else Some (failed_entries ?rs))
           \<and> map failed_name (failed_entries ?rs) =
               filter (\<lambda>s. \<exists>e. get s = Rejected (ApiError e)) statuses"
      using m sub e failed_entries_names[of get statuses] by blast
  qed
  have 3: "first_fatal (map (thrown \<circ> searchSingleStatus ctx fetch) (ctx_statuses ctx)) = Some r \<longrightarrow>
        fst (executeMultiStatusSearch ctx fetch) = Inl r"
    by (simp add: executeMultiStatusSearch_def exec_loop_fst)
  have 4: "first_fatal (map (thrown \<circ> searchSingleStatus ctx fetch) (ctx_statuses ctx)) = None \<longrightarrow>
        executeMultiStatusSearch ctx fetch =
          (Inr (map (branch_outcome ctx fetch) (ctx_statuses ctx)),
           failure_log ctx fetch (ctx_statuses ctx))"
  proof
    assume n: "first_fatal (map (thrown \<circ> searchSingleStatus ctx fetch) (ctx_statuses ctx)) = None"
    have "fst (executeMultiStatusSearch ctx fetch) = Inr (map (branch_outcome ctx fetch) (ctx_statuses ctx))"
      using n by (simp add: executeMultiStatusSearch_def exec_loop_fst)
    moreover have "snd (executeMultiStatusSearch ctx fetch) = failure_log ctx fetch (ctx_statuses ctx)"
      using exec_loop_log[OF n, of "[]" "[]"] by (simp add: executeMultiStatusSearch_def)
    ultimately show "executeMultiStatusSearch ctx fetch =
          (Inr (map (branch_outcome ctx fetch) (ctx_statuses ctx)),
           failure_log ctx fetch (ctx_statuses ctx))"
      by (metis prod.collapse)
  qed
  show ?thesis using 1 2 3 4 fatal_iff[of r'] nonfatal_iff[of r'] by blast
qed

theorem branch_error_policy_witness:
  "first_fatal (map (rejection \<circ> ex_critical None) statuses) = Some ex_unauthorized
   \<and> multi_status (ex_critical None) 50 = Inl ex_unauthorized
   \<and> first_fatal (map (rejection \<circ> ex_partial None) statuses) = None
   \<and> (\<exists>convs p. multi_status (ex_partial None) 50 = Inr (convs, Info p)
         \<and> set convs \<subseteq> {ex_conv 1 50, ex_conv 2 70, ex_conv 4 60}
         \<and> pg_errors p = Some [\<lparr>failed_name = Pending, failed_message = ''Too many requests'',
                                 failed_code = RATE_LIMIT\<rparr>])
   \<and> first_fatal (map (thrown \<circ> searchSingleStatus ex_ctx ex_critical) (ctx_statuses ex_ctx))
        = Some ex_unauthorized
   \<and> fst (executeMultiStatusSearch ex_ctx ex_critical) = Inl ex_unauthorized
   \<and> first_fatal (map (thrown \<circ> searchSingleStatus ex_ctx ex_partial) (ctx_statuses ex_ctx)) = None
   \<and> snd (executeMultiStatusSearch ex_ctx ex_partial) =
        [\<lparr>log_text = ''Status search failed - partial results will be returned'',
          log_status = Pending, log_code = Some RATE_LIMIT, log_message = ''Too many requests''\<rparr>]
   \<and> map_sum id (map br_conversations) (fst (executeMultiStatusSearch ex_ctx ex_partial)) =
        Inr [[ex_conv 1 50, ex_conv 2 70], [], [ex_conv 4 60]]
   \<and> fatal ex_unauthorized \<and> \<not> fatal ex_rate_limited"
proof -
  have a: "first_fatal (map (rejection \<circ> ex_critical None) statuses) = Some ex_unauthorized"
    by code_simp
  have b: "first_fatal (map (rejection \<circ> ex_partial None) statuses) = None"
    by code_simp
  have c: "first_fatal (map (thrown \<circ> searchSingleStatus ex_ctx ex_critical) (ctx_statuses ex_ctx))
        = Some ex_unauthorized"
    by code_simp
  have d: "first_fatal (map (thrown \<circ> searchSingleStatus ex_ctx ex_partial) (ctx_statuses ex_ctx)) = None"
    by code_simp
  have e: "failed_entries (allSettled (ex_partial None) statuses) =
      [\<lparr>failed_name = Pending, failed_message = ''Too many requests'', failed_code = RATE_LIMIT\<rparr>]"
    by code_simp
  have f: "fulfilled_conversations (allSettled (ex_partial None) statuses) =
      [ex_conv 1 50, ex_conv 2 70, ex_conv 4 60]"
    by code_simp
  have g: "failure_log ex_ctx ex_partial (ctx_statuses ex_ctx) =
      [\<lparr>log_text = ''Status search failed - partial results will be returned'',
        log_status = Pending, log_code = Some RATE_LIMIT, log_message = ''Too many requests''\<rparr>]"
    by code_simp
  have h: "map br_conversations (map (branch_outcome ex_ctx ex_partial) (ctx_statuses ex_ctx)) =
      [[ex_conv 1 50, ex_conv 2 70], [], [ex_conv 4 60]]"
    by code_simp
  have i: "isApiError ex_unauthorized \<and> isApiError ex_rate_limited
      \<and> ex_unauthorized = ApiError \<lparr>code = UNAUTHORIZED, message = ''Invalid token''\<rparr>
      \<and> ex_rate_limited = ApiError \<lparr>code = RATE_LIMIT, message = ''Too many requests''\<rparr>"
    by (simp add: ex_unauthorized_def ex_rate_limited_def)
  note crit = branch_error_policy[of "ex_critical None" ex_unauthorized 50 ex_ctx ex_critical ex_unauthorized]
  note part = branch_error_policy[of "ex_partial None" ex_unauthorized 50 ex_ctx ex_partial ex_rate_limited]
  from crit a c have 1: "multi_status (ex_critical None) 50 = Inl ex_unauthorized"
    and 2: "fst (executeMultiStatusSearch ex_ctx ex_critical) = Inl ex_unauthorized"
    and 3: "fatal ex_unauthorized"
    using i by auto
  from part b e f have 4: "\<exists>convs p. multi_status (ex_partial None) 50 = Inr (convs, Info p)
         \<and> set convs \<subseteq> {ex_conv 1 50, ex_conv 2 70, ex_conv 4 60}
         \<and> pg_errors p = Some [\<lparr>failed_name = Pending, failed_message = ''Too many requests'',
                                 failed_code = RATE_LIMIT\<rparr>]"
    by auto
  from part d g h have 5: "snd (executeMultiStatusSearch ex_ctx ex_partial) =
        [\<lparr>log_text = ''Status search failed - partial results will be returned'',
          log_status = Pending, log_code = Some RATE_LIMIT, log_message = ''Too many requests''\<rparr>]"
    and 6: "map_sum id (map br_conversations) (fst (executeMultiStatusSearch ex_ctx ex_partial)) =
        Inr [[ex_conv 1 50, ex_conv 2 70], [], [ex_conv 4 60]]"
    by auto
  from part have 7: "\<not> fatal ex_rate_limited" using i by auto
  from a b c d 1 2 3 4 5 6 7 show ?thesis by blast
qed

subsection \<open>One outcome per status\<close>

text \<open>
  C4. For every multi-status invocation that returns a result, what is handed on holds
  exactly one terminal outcome per requested status: \<^verbatim>\<open>executeMultiStatusSearch\<close> returns one
  element per requested status, in order, each either the branch's fetched result or the
  element recorded for its failure; in \<^verbatim>\<open>searchConversations\<close> every one of the three
  statuses was either fulfilled, and then is a key of the per-status totals, or rejected
  with an API error, and then is listed in the errors. A non-fatal failure of a branch
  does not remove the outcomes of the branches after it.
\<close>

theorem one_outcome_per_status:
  "(fst (executeMultiStatusSearch ctx fetch) = Inr brs \<longrightarrow>
       brs = map (branch_outcome ctx fetch) (ctx_statuses ctx)
     \<and> map br_status brs = ctx_statuses ctx
     \<and> length brs = length (ctx_statuses ctx))
   \<and> (multi_status get lim = Inr (convs, Info p) \<longrightarrow>
        map fst (case pg_totalByStatus p of None \<Rightarrow> [] | Some tb \<Rightarrow> tb) =
          filter (\<lambda>s. \<exists>v. get s = Fulfilled v) statuses
      \<and> map failed_name (case pg_errors p of None \<Rightarrow> [] | Some es \<Rightarrow> es) =
          filter (\<lambda>s. \<exists>e. get s = Rejected (ApiError e)) statuses
      \<and> (\<forall>s \<in> set statuses. (\<exists>v. get s = Fulfilled v) \<or> (\<exists>e. get s = Rejected (ApiError e))))"
proof (intro conjI impI)
  assume a: "fst (executeMultiStatusSearch ctx fetch) = Inr brs"
  then show b: "brs = map (branch_outcome ctx fetch) (ctx_statuses ctx)"
    by (simp add: executeMultiStatusSearch_def exec_loop_fst split: option.splits)
  show "map br_status brs = ctx_statuses ctx"
    by (simp add: b comp_def branch_outcome_status)
  show "length brs = length (ctx_statuses ctx)" by (simp add: b)
next
  assume a: "multi_status get lim = Inr (convs, Info p)"
  let ?rs = "allSettled get statuses"
  from a obtain st where st: "merge_loop ?rs init_state = Inr st"
    and p: "p = merged_pagination st (length convs)"
    by (auto simp: multi_status_Inr)
  note acc = multi_status_state[OF st]
  have "(case pg_totalByStatus p of None \<Rightarrow> [] | Some tb \<Rightarrow> tb) = successful_totals ?rs"
    using acc by (simp add: p merged_pagination_def)
  then show "map fst (case pg_totalByStatus p of None \<Rightarrow> [] | Some tb \<Rightarrow> tb) =
          filter (\<lambda>s. \<exists>v. get s = Fulfilled v) statuses"
    by (simp add: successful_totals_names)
  have "(case pg_errors p of None \<Rightarrow> [] | Some es \<Rightarrow> es) = failed_entries ?rs"
    using acc by (simp add: p merged_pagination_def)
  then show "map failed_name (case pg_errors p of None \<Rightarrow> [] | Some es \<Rightarrow> es) =
          filter (\<lambda>s. \<exists>e. get s = Rejected (ApiError e)) statuses"
    by (simp add: failed_entries_names)
  have nf: "first_fatal (map (rejection \<circ> get) statuses) = None"
    using st merge_loop_total[of ?rs init_state] by (auto simp: allSettled_rejections)
  show "\<forall>s \<in> set statuses. (\<exists>v. get s = Fulfilled v) \<or> (\<exists>e. get s = Rejected (ApiError e))"
  proof
    fix s assume "s \<in> set statuses"
    have k: "\<And>ss. first_fatal (map (rejection \<circ> get) ss) = None \<Longrightarrow> s \<in> set ss \<Longrightarrow>
        (\<exists>v. get s = Fulfilled v) \<or> (\<exists>e. get s = Rejected (ApiError e))"
    proof -
      fix ss show "first_fatal (map (rejection \<circ> get) ss) = None \<Longrightarrow> s \<in> set ss \<Longrightarrow>
        (\<exists>v. get s = Fulfilled v) \<or> (\<exists>e. get s = Rejected (ApiError e))"
      proof (induction ss)
        case Nil
        then show ?case by simp
      next
        case (Cons x ss)
        show ?case
        proof (cases "get x")
          case (Fulfilled v)
          then show ?thesis using Cons by auto
        next
          case (Rejected y)
          then show ?thesis using Cons by (cases y) (auto split: if_splits)
        qed
      qed
    qed
    from k[OF nf \<open>s \<in> set statuses\<close>]
    show "(\<exists>v. get s = Fulfilled v) \<or> (\<exists>e. get s = Rejected (ApiError e))" .
  qed
qed

theorem one_outcome_per_status_witness:
  "(\<exists>brs. fst (executeMultiStatusSearch ex_ctx ex_partial) = Inr brs
      \<and> map br_status brs = [Active, Pending, Closed]
      \<and> map br_conversations brs = [[ex_conv 1 50, ex_conv 2 70], [], [ex_conv 4 60]]
      \<and> length brs = 3)
   \<and> (\<exists>convs p. multi_status (ex_partial None) 50 = Inr (convs, Info p)
      \<and> map fst (case pg_totalByStatus p of None \<Rightarrow> [] | Some tb \<Rightarrow> tb) = [Active, Closed]
      \<and> map failed_name (case pg_errors p of None \<Rightarrow> [] | Some es \<Rightarrow> es) = [Pending])"
proof -
  have "\<not> isl (fst (executeMultiStatusSearch ex_ctx ex_partial))" by code_simp
  then obtain brs where b: "fst (executeMultiStatusSearch ex_ctx ex_partial) = Inr brs"
    using not_isl_Inr by blast
  have "\<not> isl (multi_status (ex_partial None) 50)" by code_simp
  then obtain convs pg where "multi_status (ex_partial None) 50 = Inr (convs, pg)"
    using not_isl_Inr by (metis surj_pair)
  then obtain p where m: "multi_status (ex_partial None) 50 = Inr (convs, Info p)"
    by (auto simp: multi_status_Inr)
  have s: "ctx_statuses ex_ctx = [Active, Pending, Closed]" by code_simp
  have h: "map br_conversations (map (branch_outcome ex_ctx ex_partial) (ctx_statuses ex_ctx)) =
      [[ex_conv 1 50, ex_conv 2 70], [], [ex_conv 4 60]]"
    by code_simp
  have f: "filter (\<lambda>s. \<exists>v. ex_partial None s = Fulfilled v) statuses = [Active, Closed]"
    by (simp add: statuses_def ex_rate_limited_def)
  have g: "filter (\<lambda>s. \<exists>e. ex_partial None s = Rejected (ApiError e)) statuses = [Pending]"
    by (simp add: statuses_def ex_rate_limited_def)
  from one_outcome_per_status[of ex_ctx ex_partial brs "ex_partial None" 50 convs p] b m s h f g
  show ?thesis by auto
qed

subsection \<open>Counts after the client-side filter\<close>





section \<open>The created-date clause\<close>




lemma find_at_none:
  "(\<And>p b. suffix b s \<Longrightarrow> rm r (p, b) = []) \<Longrightarrow> find_at r p s = None"
proof (induction s arbitrary: p)
  case Nil
  then show ?case by (simp add: find_at.simps)
next
  case (Cons c s)
  have "rm r (p, c # s) = []" using Cons.prems[of "c # s" p] by simp
  moreover have "find_at r (Some c) s = None"
  proof (rule Cons.IH)
    fix p' b assume "suffix b s"
    then have "suffix b (c # s)" by (rule suffix_ConsI)
    then show "rm r (p', b) = []" by (rule Cons.prems)
  qed
  ultimately show ?case by (simp add: find_at.simps[of r p "c # s"])
qed








section \<open>Inline image extraction: indices, pixels, placeholders\<close>

lemma starts_with_ci_Nil [simp]: "starts_with_ci [] s"
  by (simp add: starts_with_ci_def)

lemma starts_with_ci_Cons:
  "starts_with_ci (x # p) s \<longleftrightarrow> (\<exists>c cs. s = c # cs \<and> lower c = lower x \<and> starts_with_ci p cs)"
  by (cases s) (auto simp: starts_with_ci_def)

lemma lit_ci_Nil: "lit_ci [] = Eps"
  by (simp add: lit_ci_def seqs_def)

lemma lit_ci_Cons: "lit_ci (x # p) = Seq (chr_ci x) (lit_ci p)"
  by (simp add: lit_ci_def seqs_def)

lemma rm_chr_ci:
  "rm (chr_ci x) (q, s) = (case s of [] \<Rightarrow> [] | c # cs \<Rightarrow> if lower c = lower x then [(Some c, cs)] else [])"
  by (simp add: chr_ci_def)

lemma rm_lit_ci_empty:
  "rm (lit_ci p) (q, s) = [] \<longleftrightarrow> \<not> starts_with_ci p s"
proof (induction p arbitrary: q s)
  case Nil
  then show ?case by (simp add: lit_ci_Nil)
next
  case (Cons x p)
  show ?case
  proof (cases s)
    case Nil
    then show ?thesis by (simp add: lit_ci_Cons rm_chr_ci starts_with_ci_Cons)
  next
    case (Cons c cs)
    then show ?thesis using Cons.IH[of "Some c" cs]
      by (simp add: lit_ci_Cons rm_chr_ci starts_with_ci_Cons)
  qed
qed

lemma rm_lit_ci_rest:
  "c \<in> set (rm (lit_ci p) (q, s)) \<Longrightarrow> snd c = drop (length p) s"
proof (induction p arbitrary: q s)
  case Nil
  then show ?case by (simp add: lit_ci_Nil)
next
  case (Cons x p)
  then show ?case
    by (cases s) (auto simp: lit_ci_Cons rm_chr_ci split: if_splits)
qed

lemma find_at_Bol_later: "find_at (Seq Bol r) (Some x) t = None"
proof (induction t arbitrary: x)
  case Nil
  then show ?case by (simp add: find_at.simps)
next
  case (Cons c t)
  then show ?case by (simp add: find_at.simps[of _ _ "c # t"])
qed

lemma test_Bol: "test (Seq Bol r) s \<longleftrightarrow> rm r (None, s) \<noteq> []"
proof (cases "rm r (None, s)")
  case Nil
  then show ?thesis
    by (cases s) (simp_all add: test_def find_at.simps[of _ None] find_at_Bol_later)
next
  case (Cons c cs)
  then show ?thesis by (simp add: test_def find_at.simps[of _ None])
qed

lemma starts_with_ci_append:
  "starts_with_ci (a @ b) s \<longleftrightarrow> starts_with_ci a s \<and> starts_with_ci b (drop (length a) s)"
proof (induction a arbitrary: s)
  case Nil
  then show ?case by simp
next
  case (Cons x a)
  then show ?case by (cases s) (auto simp: starts_with_ci_Cons)
qed

lemma concat_map_empty: "concat (map f xs) = [] \<longleftrightarrow> (\<forall>x \<in> set xs. f x = [])"
  by (induction xs) auto

lemma rm_Seq_Eps: "rm (Seq r Eps) c = rm r c"
proof -
  have "\<And>xs::cursor list. concat (map (rm Eps) xs) = xs"
  proof -
    fix xs :: "cursor list" show "concat (map (rm Eps) xs) = xs" by (induction xs) auto
  qed
  then show ?thesis by simp
qed

lemma fetchable_iff:
  "test fetchable_pattern s \<longleftrightarrow> starts_with_ci ''http://'' s \<or> starts_with_ci ''https://'' s"
proof -
  let ?tail = "Seq (Opt (chr_ci CHR ''s'')) (Seq (lit_ci ''://'') Eps)"
  have t: "test fetchable_pattern s \<longleftrightarrow> rm (Seq (lit_ci ''http'') ?tail) (None, s) \<noteq> []"
    by (simp add: fetchable_pattern_def seqs_def test_Bol)
  have tail: "\<And>q u. rm ?tail (q, u) \<noteq> [] \<longleftrightarrow>
      starts_with_ci ''://'' u \<or> starts_with_ci ''s://'' u"
  proof -
    fix q u
    have a: "rm (Seq (lit_ci ''://'') Eps) (q, u) \<noteq> [] \<longleftrightarrow> starts_with_ci ''://'' u"
      unfolding rm_Seq_Eps using rm_lit_ci_empty[of "''://''" q u] by blast
    have b: "concat (map (rm (Seq (lit_ci ''://'') Eps)) (rm (chr_ci CHR ''s'') (q, u))) \<noteq> []
        \<longleftrightarrow> starts_with_ci ''s://'' u"
    proof (cases u)
      case Nil
      then show ?thesis by (simp add: rm_chr_ci starts_with_ci_Cons)
    next
      case (Cons c cs)
      have "rm (Seq (lit_ci ''://'') Eps) (Some c, cs) \<noteq> [] \<longleftrightarrow> starts_with_ci ''://'' cs"
        unfolding rm_Seq_Eps using rm_lit_ci_empty[of "''://''" "Some c" cs] by blast
      then show ?thesis using Cons
        by (simp add: rm_chr_ci starts_with_ci_Cons[of "CHR ''s''"] del: rm.simps)
    qed
    show "rm ?tail (q, u) \<noteq> [] \<longleftrightarrow> starts_with_ci ''://'' u \<or> starts_with_ci ''s://'' u"
      using a b by (auto simp: Opt_def simp del: rm.simps(3) simp add: rm.simps(3)[of "Alt _ _"])
  qed
  have "rm (Seq (lit_ci ''http'') ?tail) (None, s) \<noteq> [] \<longleftrightarrow>
      starts_with_ci ''http'' s \<and>
      (starts_with_ci ''://'' (drop 4 s) \<or> starts_with_ci ''s://'' (drop 4 s))"
  proof (cases "rm (lit_ci ''http'') (None, s)")
    case Nil
    then show ?thesis using rm_lit_ci_empty[of "''http''" None s] by simp
  next
    case (Cons c cs)
    then have sw: "starts_with_ci ''http'' s" using rm_lit_ci_empty[of "''http''" None s] by simp
    have rest: "\<And>d. d \<in> set (c # cs) \<Longrightarrow> snd d = drop 4 s"
      using rm_lit_ci_rest[of _ "''http''" None s] Cons by (simp add: eval_nat_numeral)
    have "(\<exists>d \<in> set (c # cs). rm ?tail d \<noteq> []) \<longleftrightarrow>
        (starts_with_ci ''://'' (drop 4 s) \<or> starts_with_ci ''s://'' (drop 4 s))"
    proof
      assume "\<exists>d \<in> set (c # cs). rm ?tail d \<noteq> []"
      then obtain d where d: "d \<in> set (c # cs)" and n: "rm ?tail d \<noteq> []" by blast
      from rest[OF d] have "d = (fst d, drop 4 s)" by (cases d) simp
      with n tail[of "fst d" "drop 4 s"]
      show "starts_with_ci ''://'' (drop 4 s) \<or> starts_with_ci ''s://'' (drop 4 s)" by simp
    next
      assume a: "starts_with_ci ''://'' (drop 4 s) \<or> starts_with_ci ''s://'' (drop 4 s)"
      from rest[of c] have "c = (fst c, drop 4 s)" by (cases c) simp
      with a tail[of "fst c" "drop 4 s"] have "rm ?tail c \<noteq> []" by simp
      then show "\<exists>d \<in> set (c # cs). rm ?tail d \<noteq> []" by auto
    qed
    then show ?thesis using Cons sw
      by (simp only: rm.simps(3)[of "lit_ci ''http''"] concat_map_empty) auto
  qed
  moreover have "starts_with_ci ''http://'' s \<longleftrightarrow>
      starts_with_ci ''http'' s \<and> starts_with_ci ''://'' (drop 4 s)"
    using starts_with_ci_append[of "''http''" "''://''" s] by (simp add: eval_nat_numeral)
  moreover have "starts_with_ci ''https://'' s \<longleftrightarrow>
      starts_with_ci ''http'' s \<and> starts_with_ci ''s://'' (drop 4 s)"
    using starts_with_ci_append[of "''http''" "''s://''" s] by (simp add: eval_nat_numeral)
  ultimately show ?thesis using t by blast
qed

lemma run_image_callback:
  "run_callback image_callback ts (n, imgs) =
     (splice n ts,
      (n + length (filter (\<lambda>tag. \<not> is_pixel tag) (matches ts)),
       imgs @ map (\<lambda>(i, tag). image_of (Suc i) tag)
                (enumerate n (filter (\<lambda>tag. \<not> is_pixel tag) (matches ts)))))"
proof (induction ts arbitrary: n imgs rule: matches.induct)
  case 1
  then show ?case by simp
next
  case (2 c ts)
  then show ?case by simp
next
  case (3 m ts)
  show ?case
  proof (cases "is_pixel m")
    case True
    then show ?thesis using 3[of n imgs] by (simp add: image_callback_def)
  next
    case False
    then show ?thesis using 3[of "Suc n" "imgs @ [image_of (Suc n) m]"]
      by (simp add: image_callback_def)
  qed
qed

lemma extract_nonempty:
  assumes "h \<noteq> []"
  shows "images (extractInlineImages h) =
           map (\<lambda>(i, tag). image_of (Suc i) tag) (enumerate 0 (retained h))"
    and "html (extractInlineImages h) = splice 0 (tokens img_pattern None h)"
  using assms
  by (simp_all add: extractInlineImages_def replace_cb_def run_image_callback retained_def)

lemma index_enumerate:
  "map img_index (map (\<lambda>(i, tag). image_of (Suc i) tag) (enumerate n ts)) =
     [Suc n ..< Suc n + length ts]"
proof (induction ts arbitrary: n)
  case Nil
  then show ?case by simp
next
  case (Cons t ts)
  have "[Suc n ..< Suc n + length (t # ts)] = Suc n # [Suc (Suc n) ..< Suc (Suc n) + length ts]"
    by (subst upt_rec) simp
  then show ?case using Cons[of "Suc n"] by (simp add: image_of_def)
qed

lemma image_of_enumerate:
  assumes "img \<in> set (map (\<lambda>(i, tag). image_of (Suc i) tag) (enumerate n ts))"
  shows "\<exists>i tag. tag \<in> set ts \<and> img = image_of i tag"
proof -
  from assms obtain a b where ab: "(a, b) \<in> set (enumerate n ts)" and img: "img = image_of (Suc a) b"
    by auto
  from ab have "n \<le> a" and "a < length ts + n" and "ts ! (a - n) = b"
    by (simp_all add: in_set_enumerate_eq)
  then have "b \<in> set ts" using nth_mem[of "a - n" ts] by auto
  with img show ?thesis by blast
qed

text \<open>
  What \<^verbatim>\<open>extractInlineImages\<close> does in terms of the values its attribute patterns read from
  a tag. A tag whose read width and height are both \<^verbatim>\<open>1\<close> is not among the retained tags,
  gets no index and leaves nothing in the text. The retained tags, in document order, get
  the indices 1, 2, ... with no gap; each is fetchable exactly when the read source begins
  with \<^verbatim>\<open>http://\<close> or \<^verbatim>\<open>https://\<close> in any letter case; and each is replaced in the text by
  \<^verbatim>\<open>[Image N: alt]\<close> when the read alt text is non-empty and by \<^verbatim>\<open>[Image N]\<close> otherwise. The
  empty body gives no images and the empty text.
\<close>

lemma extraction_by_read_attributes:
  "extractInlineImages [] = \<lparr>images = [], html = []\<rparr>
   \<and> (h \<noteq> [] \<longrightarrow>
        images (extractInlineImages h) =
          map (\<lambda>(i, tag). image_of (Suc i) tag) (enumerate 0 (retained h))
      \<and> map img_index (images (extractInlineImages h)) = [1 ..< Suc (length (retained h))]
      \<and> html (extractInlineImages h) = splice 0 (tokens img_pattern None h)
      \<and> (\<forall>img \<in> set (images (extractInlineImages h)).
            \<not> (img_width img = Some ''1'' \<and> img_height img = Some ''1'')
          \<and> (isFetchable img \<longleftrightarrow>
               starts_with_ci ''http://'' (img_src img) \<or> starts_with_ci ''https://'' (img_src img))))
   \<and> retained h = filter (\<lambda>tag. \<not> (attr_number ''width'' tag = Some ''1''
                                     \<and> attr_number ''height'' tag = Some ''1''))
                     (matches (tokens img_pattern None h))
   \<and> splice n (Inr tag # ts) =
       (if attr_number ''width'' tag = Some ''1'' \<and> attr_number ''height'' tag = Some ''1''
        then splice n ts
        else (if attr_alt tag \<noteq> [] then ''[Image '' @ show_nat (Suc n) @ '': '' @ attr_alt tag @ '']''
              else ''[Image '' @ show_nat (Suc n) @ '']'') @ splice (Suc n) ts)
   \<and> splice n (Inl c # ts) = c # splice n ts"
proof -
  have 1: "extractInlineImages [] = \<lparr>images = [], html = []\<rparr>"
    by (simp add: extractInlineImages_def)
  have 2: "h \<noteq> [] \<longrightarrow>
        images (extractInlineImages h) =
          map (\<lambda>(i, tag). image_of (Suc i) tag) (enumerate 0 (retained h))
      \<and> map img_index (images (extractInlineImages h)) = [1 ..< Suc (length (retained h))]
      \<and> html (extractInlineImages h) = splice 0 (tokens img_pattern None h)
      \<and> (\<forall>img \<in> set (images (extractInlineImages h)).
            \<not> (img_width img = Some ''1'' \<and> img_height img = Some ''1'')
          \<and> (isFetchable img \<longleftrightarrow>
               starts_with_ci ''http://'' (img_src img) \<or> starts_with_ci ''https://'' (img_src img)))"
  proof
    assume ne: "h \<noteq> []"
    note e = extract_nonempty[OF ne]
    have ix: "map img_index (images (extractInlineImages h)) = [1 ..< Suc (length (retained h))]"
      using index_enumerate[of 0 "retained h"] by (simp add: e(1))
    have each: "\<forall>img \<in> set (images (extractInlineImages h)).
            \<not> (img_width img = Some ''1'' \<and> img_height img = Some ''1'')
          \<and> (isFetchable img \<longleftrightarrow>
               starts_with_ci ''http://'' (img_src img) \<or> starts_with_ci ''https://'' (img_src img))"
    proof
      fix img assume "img \<in> set (images (extractInlineImages h))"
      then obtain i tag where t: "tag \<in> set (retained h)" and img: "img = image_of i tag"
        using image_of_enumerate[of img 0 "retained h"] by (auto simp: e(1))
      from t have "\<not> is_pixel tag" by (simp add: retained_def)
      then have a: "\<not> (img_width img = Some ''1'' \<and> img_height img = Some ''1'')"
        by (simp add: img image_of_def is_pixel_def)
      have b: "isFetchable img \<longleftrightarrow>
               starts_with_ci ''http://'' (img_src img) \<or> starts_with_ci ''https://'' (img_src img)"
        by (simp add: img image_of_def fetchable_iff)
      from a b show "\<not> (img_width img = Some ''1'' \<and> img_height img = Some ''1'')
          \<and> (isFetchable img \<longleftrightarrow>
               starts_with_ci ''http://'' (img_src img) \<or> starts_with_ci ''https://'' (img_src img))"
        by blast
    qed
    from e ix each show "images (extractInlineImages h) =
          map (\<lambda>(i, tag). image_of (Suc i) tag) (enumerate 0 (retained h))
      \<and> map img_index (images (extractInlineImages h)) = [1 ..< Suc (length (retained h))]
      \<and> html (extractInlineImages h) = splice 0 (tokens img_pattern None h)
      \<and> (\<forall>img \<in> set (images (extractInlineImages h)).
            \<not> (img_width img = Some ''1'' \<and> img_height img = Some ''1'')
          \<and> (isFetchable img \<longleftrightarrow>
               starts_with_ci ''http://'' (img_src img) \<or> starts_with_ci ''https://'' (img_src img)))"
      by blast
  qed
  have 3: "retained h = filter (\<lambda>tag. \<not> (attr_number ''width'' tag = Some ''1''
                                     \<and> attr_number ''height'' tag = Some ''1''))
                     (matches (tokens img_pattern None h))"
    by (simp add: retained_def is_pixel_def)
  have 4: "splice n (Inr tag # ts) =
       (if attr_number ''width'' tag = Some ''1'' \<and> attr_number ''height'' tag = Some ''1''
        then splice n ts
        else (if attr_alt tag \<noteq> [] then ''[Image '' @ show_nat (Suc n) @ '': '' @ attr_alt tag @ '']''
              else ''[Image '' @ show_nat (Suc n) @ '']'') @ splice (Suc n) ts)"
    by (simp add: is_pixel_def placeholder_def)
  have 5: "splice n (Inl c # ts) = c # splice n ts" by simp
  from 1 2 3 4 5 show ?thesis by (intro conjI)
qed

lemma extraction_by_read_attributes_example:
  "ex_body \<noteq> []
   \<and> length (matches (tokens img_pattern None ex_body)) = 3
   \<and> length (retained ex_body) = 2
   \<and> images (extractInlineImages ex_body) =
       [\<lparr>img_index = 1, img_src = ''https://a.com/s.png'', img_alt = ''err'',
         img_width = Some ''600'', img_height = Some ''400'', isFetchable = True\<rparr>,
        \<lparr>img_index = 2, img_src = ''cid:1'', img_alt = ''x'', img_width = None,
         img_height = None, isFetchable = False\<rparr>]
   \<and> map img_index (images (extractInlineImages ex_body)) = [1, 2]
   \<and> html (extractInlineImages ex_body) = ''<p>Hi</p>[Image 1: err]<p>See</p>[Image 2: x]''"
proof -
  have ne: "ex_body \<noteq> []" by code_simp
  have m: "length (matches (tokens img_pattern None ex_body)) = 3" by code_simp
  have r: "map (\<lambda>(i, tag). image_of (Suc i) tag) (enumerate 0 (retained ex_body)) =
       [\<lparr>img_index = 1, img_src = ''https://a.com/s.png'', img_alt = ''err'',
         img_width = Some ''600'', img_height = Some ''400'', isFetchable = True\<rparr>,
        \<lparr>img_index = 2, img_src = ''cid:1'', img_alt = ''x'', img_width = None,
         img_height = None, isFetchable = False\<rparr>]"
    by code_simp
  have l: "length (retained ex_body) = 2" by code_simp
  have s: "splice 0 (tokens img_pattern None ex_body) = ''<p>Hi</p>[Image 1: err]<p>See</p>[Image 2: x]''"
    by code_simp
  have u: "[1 ..< Suc 2] = [1, 2::nat]" by code_simp
  from extraction_by_read_attributes[of ex_body] ne r l s u
  have "images (extractInlineImages ex_body) =
       [\<lparr>img_index = 1, img_src = ''https://a.com/s.png'', img_alt = ''err'',
         img_width = Some ''600'', img_height = Some ''400'', isFetchable = True\<rparr>,
        \<lparr>img_index = 2, img_src = ''cid:1'', img_alt = ''x'', img_width = None,
         img_height = None, isFetchable = False\<rparr>]"
    and "map img_index (images (extractInlineImages ex_body)) = [1, 2]"
    and "html (extractInlineImages ex_body) = ''<p>Hi</p>[Image 1: err]<p>See</p>[Image 2: x]''"
    by simp_all
  with ne m l show ?thesis by blast
qed

subsection \<open>Width and height read from the wrong place\<close>

text \<open>
  C6 at a tracking pixel. The patterns for width and height take the first place in the tag
  where the word \<^verbatim>\<open>width\<close> (or \<^verbatim>\<open>height\<close>) starts at a word boundary, and a word boundary
  also lies after a hyphen and inside a quoted attribute value. An image element whose
  \<^verbatim>\<open>width\<close> and \<^verbatim>\<open>height\<close> attributes are both 1 but whose tag has a \<^verbatim>\<open>data-width="600"\<close>
  attribute first is read as 600 wide: it is not deleted, it gets index 1, an entry in the
  images list and the placeholder \<^verbatim>\<open>[Image 1]\<close>. The same element without the \<^verbatim>\<open>data-width\<close>
  attribute is deleted. An image whose \<^verbatim>\<open>width\<close> and \<^verbatim>\<open>height\<close> attributes are 600 and 400 and
  whose alt text is \<^verbatim>\<open>width=1 height=1\<close> is read as 1 by 1 and deleted.
\<close>

theorem tracking_pixel_not_deleted:
  "extractInlineImages ex_data_width =
     \<lparr>images = [\<lparr>img_index = 1, img_src = ''https://t.example/p.gif'', img_alt = [],
                   img_width = Some ''600'', img_height = Some ''1'', isFetchable = True\<rparr>],
      html = ''[Image 1]''\<rparr>
   \<and> extractInlineImages ex_plain_pixel = \<lparr>images = [], html = []\<rparr>
   \<and> extractInlineImages ex_alt_text = \<lparr>images = [], html = []\<rparr>"
proof -
  have a: "extractInlineImages ex_data_width =
     \<lparr>images = [\<lparr>img_index = 1, img_src = ''https://t.example/p.gif'', img_alt = [],
                   img_width = Some ''600'', img_height = Some ''1'', isFetchable = True\<rparr>],
      html = ''[Image 1]''\<rparr>"
    by code_simp
  have b: "extractInlineImages ex_plain_pixel = \<lparr>images = [], html = []\<rparr>" by code_simp
  have c: "extractInlineImages ex_alt_text = \<lparr>images = [], html = []\<rparr>" by code_simp
  from a b c show ?thesis by (intro conjI)
qed

section \<open>The length cap of stripHtml\<close>

text \<open>
  C10. For every input, \<^verbatim>\<open>stripHtml\<close> with a maximum length of 0 truncates nothing and
  returns the same text as with no maximum length, in the version with the removal of
  quoted markup and in the one without.
\<close>

theorem zero_max_length_disables_cap:
  "stripHtml h (Some 0) = stripHtml h None
   \<and> stripHtml_plain h (Some 0) = stripHtml_plain h None"
  by (simp add: stripHtml_def stripHtml_plain_def cap_length_def)

theorem zero_max_length_disables_cap_witness:
  "stripHtml ''<p>Hi  there</p>'' (Some 0) = ''Hi there''
   \<and> stripHtml_plain ''<p>Hi  there</p>'' (Some 0) = ''Hi there''
   \<and> stripHtml ''<p>Hi  there</p>'' (Some 2) = ''Hi''"
proof -
  have a: "stripHtml ''<p>Hi  there</p>'' None = ''Hi there''" by code_simp
  have b: "stripHtml_plain ''<p>Hi  there</p>'' None = ''Hi there''" by code_simp
  have c: "stripHtml ''<p>Hi  there</p>'' (Some 2) = ''Hi''" by code_simp
  from zero_max_length_disables_cap[of "''<p>Hi  there</p>''"] a b c show ?thesis by simp
qed

section \<open>The lookahead of the header pair\<close>

text \<open>
  C8 at its boundary. With 6 blank lines the \<^verbatim>\<open>Date:\<close> line is the 7th line after the
  \<^verbatim>\<open>From:\<close> line and the text is cut at the \<^verbatim>\<open>From:\<close> line; with 7 blank lines it is the 8th
  line after it, the inner loop (which stops before index \<open>i + 8\<close>) does not reach it, and
  the text is returned unchanged although 20 characters would be kept and 147 removed.
\<close>

theorem date_on_eighth_line_not_detected:
  "split_nl (ex_forward 7) ! 1 = ''From: alice@example.com''
   \<and> split_nl (ex_forward 7) ! 9 = ''Date: Mon, 1 Jan 2024 10:00:00''
   \<and> test from_header (trim (split_nl (ex_forward 7) ! 1))
   \<and> test date_header (trim (split_nl (ex_forward 7) ! 9))
   \<and> length (trim (join [NL] (take 1 (split_nl (ex_forward 7))))) = 20
   \<and> length (join [NL] (drop 1 (split_nl (ex_forward 7)))) = 147
   \<and> stripQuotedContent (ex_forward 7) = ex_forward 7
   \<and> stripQuotedContent (ex_forward 6) =
       ''Hello there, thanks.'' @ [NL, NL] @ ''[Quoted/forwarded content removed - 146 chars]''"
  by code_simp

section \<open>Re-applying a stage to its own output\<close>

subsection \<open>Trimming, splitting and joining\<close>

lemma trim_lr: "trim s = rtrim (ltrim s)"
  by (simp add: trim_def ltrim_def rtrim_def)

lemma is_space_NL: "is_space NL"
  by (simp add: is_space_def)

lemma ltrim_Nil_iff: "ltrim s = [] \<longleftrightarrow> (\<forall>c \<in> set s. is_space c)"
  by (simp add: ltrim_def dropWhile_eq_Nil_conv)

lemma rtrim_Nil_iff: "rtrim s = [] \<longleftrightarrow> (\<forall>c \<in> set s. is_space c)"
  by (simp add: rtrim_def dropWhile_eq_Nil_conv)

lemma ltrim_append: "ltrim (a @ b) = (if ltrim a = [] then ltrim b else ltrim a @ b)"
  by (simp add: ltrim_Nil_iff) (simp add: ltrim_def dropWhile_append)

lemma rtrim_append: "rtrim (a @ b) = (if rtrim b = [] then rtrim a else a @ rtrim b)"
  by (simp add: rtrim_Nil_iff) (simp add: rtrim_def dropWhile_append)

lemma ltrim_Cons: "ltrim (c # s) = (if is_space c then ltrim s else c # s)"
  by (simp add: ltrim_def)

lemma rtrim_Cons:
  "rtrim (c # s) = (if rtrim s = [] then (if is_space c then [] else [c]) else c # rtrim s)"
  using rtrim_append[of "[c]" s] by (simp add: rtrim_def)

lemma ltrim_rtrim: "ltrim (rtrim s) = rtrim (ltrim s)"
proof (induction s)
  case Nil
  then show ?case by (simp add: ltrim_def rtrim_def)
next
  case (Cons c s)
  show ?case
  proof (cases "is_space c")
    case True
    have "rtrim s = [] \<Longrightarrow> rtrim (ltrim s) = []"
      using ltrim_Nil_iff[of s] rtrim_Nil_iff[of s] by (simp add: rtrim_def)
    then show ?thesis using True Cons by (simp add: ltrim_Cons rtrim_Cons) (simp add: ltrim_def)
  next
    case False
    then show ?thesis by (simp add: ltrim_Cons rtrim_Cons)
  qed
qed

lemma ltrim_idem: "ltrim (ltrim s) = ltrim s"
  by (simp add: ltrim_def dropWhile_idem)

lemma rtrim_idem: "rtrim (rtrim s) = rtrim s"
  by (simp add: rtrim_def dropWhile_idem)

lemma trim_ltrim: "trim (ltrim s) = trim s"
  by (simp add: trim_lr ltrim_idem)

lemma trim_rtrim: "trim (rtrim s) = trim s"
  by (simp add: trim_lr ltrim_rtrim rtrim_idem)

lemma trim_idem: "trim (trim s) = trim s"
  by (simp add: trim_lr ltrim_rtrim rtrim_idem ltrim_idem)

lemma set_ltrim: "set (ltrim s) \<subseteq> set s"
  by (simp add: ltrim_def set_dropWhileD subsetI)

lemma set_rtrim: "set (rtrim s) \<subseteq> set s"
proof
  fix x assume "x \<in> set (rtrim s)"
  then have "x \<in> set (dropWhile is_space (rev s))" by (simp add: rtrim_def)
  then have "x \<in> set (rev s)" by (rule set_dropWhileD)
  then show "x \<in> set s" by simp
qed

lemma split_nl_nonempty: "split_nl s \<noteq> []"
  by (induction s) (auto split: list.splits)

lemma split_nl_no_nl: "NL \<notin> set s \<Longrightarrow> split_nl s = [s]"
  by (induction s) auto

lemma split_nl_append: "split_nl (a @ NL # b) = split_nl a @ split_nl b"
proof (induction a)
  case Nil
  then show ?case by simp
next
  case (Cons c a)
  then show ?case using split_nl_nonempty[of a] by (auto split: list.splits)
qed

lemma split_nl_lines: "l \<in> set (split_nl s) \<Longrightarrow> NL \<notin> set l"
proof (induction s arbitrary: l)
  case Nil
  then show ?case by simp
next
  case (Cons c s)
  show ?case
  proof (cases "c = NL")
    case True
    then show ?thesis using Cons by auto
  next
    case False
    obtain k ks where k: "split_nl s = k # ks" using split_nl_nonempty[of s] by (cases "split_nl s") auto
    with False Cons.prems have "l = c # k \<or> l \<in> set ks" by simp
    then show ?thesis using Cons.IH[of k] Cons.IH[of l] k False by auto
  qed
qed

lemma join_Cons: "xs \<noteq> [] \<Longrightarrow> join sep (x # xs) = x @ sep @ join sep xs"
  by (cases xs) simp_all

lemma join_snoc_ne: "z \<noteq> [] \<Longrightarrow> join sep (X @ [z]) \<noteq> []"
  by (induction X) (simp_all add: join_Cons)

lemma split_join:
  "X \<noteq> [] \<Longrightarrow> (\<forall>l \<in> set X. NL \<notin> set l) \<Longrightarrow> split_nl (join [NL] X) = X"
proof (induction X)
  case Nil
  then show ?case by simp
next
  case (Cons x X)
  show ?case
  proof (cases X)
    case Nil
    then show ?thesis using Cons.prems by (simp add: split_nl_no_nl)
  next
    case (Cons y Y)
    then have "join [NL] (x # X) = x @ NL # join [NL] X" by simp
    then show ?thesis using Cons.IH Cons.prems Cons
      by (simp add: split_nl_append split_nl_no_nl del: join.simps)
  qed
qed

text \<open>Trimming a joined block of lines.\<close>

lemma ltrim_join:
  "ltrim (join [NL] M) = [] \<or>
   (\<exists>a < length M. ltrim (M ! a) \<noteq> [] \<and>
      ltrim (join [NL] M) = join [NL] (ltrim (M ! a) # drop (Suc a) M))"
proof (induction M)
  case Nil
  then show ?case by (simp add: ltrim_def)
next
  case (Cons l M)
  show ?case
  proof (cases M)
    case Nil
    then show ?thesis by (cases "ltrim l = []") auto
  next
    case (Cons m ms)
    then have j: "join [NL] (l # M) = l @ NL # join [NL] M" by simp
    show ?thesis
    proof (cases "ltrim l = []")
      case True
      then have e: "ltrim (join [NL] (l # M)) = ltrim (join [NL] M)"
        by (simp add: j ltrim_append ltrim_Cons is_space_NL)
      from Cons.IH show ?thesis
      proof
        assume "ltrim (join [NL] M) = []"
        then show ?thesis using e by simp
      next
        assume "\<exists>a < length M. ltrim (M ! a) \<noteq> [] \<and>
          ltrim (join [NL] M) = join [NL] (ltrim (M ! a) # drop (Suc a) M)"
        then obtain a where "a < length M" "ltrim (M ! a) \<noteq> []"
          "ltrim (join [NL] M) = join [NL] (ltrim (M ! a) # drop (Suc a) M)" by blast
        then have "Suc a < length (l # M) \<and> ltrim ((l # M) ! Suc a) \<noteq> [] \<and>
          ltrim (join [NL] (l # M)) = join [NL] (ltrim ((l # M) ! Suc a) # drop (Suc (Suc a)) (l # M))"
          using e by simp
        then show ?thesis by blast
      qed
    next
      case False
      then have "ltrim (join [NL] (l # M)) = ltrim l @ NL # join [NL] M"
        by (simp add: j ltrim_append)
      also have "\<dots> = join [NL] (ltrim l # M)" using Cons by simp
      finally have "0 < length (l # M) \<and> ltrim ((l # M) ! 0) \<noteq> [] \<and>
          ltrim (join [NL] (l # M)) = join [NL] (ltrim ((l # M) ! 0) # drop (Suc 0) (l # M))"
        using False by simp
      then show ?thesis by blast
    qed
  qed
qed

lemma rtrim_join:
  "rtrim (join [NL] M) = [] \<or>
   (\<exists>b < length M. rtrim (M ! b) \<noteq> [] \<and>
      rtrim (join [NL] M) = join [NL] (take b M @ [rtrim (M ! b)]))"
proof (induction M)
  case Nil
  then show ?case by (simp add: rtrim_def)
next
  case (Cons l M)
  show ?case
  proof (cases M)
    case Nil
    then show ?thesis by (cases "rtrim l = []") auto
  next
    case (Cons m ms)
    then have j: "join [NL] (l # M) = l @ NL # join [NL] M" by simp
    from Cons.IH show ?thesis
    proof
      assume z: "rtrim (join [NL] M) = []"
      then have e: "rtrim (join [NL] (l # M)) = rtrim l"
        by (simp add: j rtrim_append rtrim_Cons is_space_NL)
      show ?thesis
      proof (cases "rtrim l = []")
        case True
        then show ?thesis using e by simp
      next
        case False
        then have "0 < length (l # M) \<and> rtrim ((l # M) ! 0) \<noteq> [] \<and>
          rtrim (join [NL] (l # M)) = join [NL] (take 0 (l # M) @ [rtrim ((l # M) ! 0)])"
          using e by simp
        then show ?thesis by blast
      qed
    next
      assume "\<exists>b < length M. rtrim (M ! b) \<noteq> [] \<and>
        rtrim (join [NL] M) = join [NL] (take b M @ [rtrim (M ! b)])"
      then obtain b where b: "b < length M" "rtrim (M ! b) \<noteq> []"
        "rtrim (join [NL] M) = join [NL] (take b M @ [rtrim (M ! b)])" by blast
      have ne: "join [NL] (take b M @ [rtrim (M ! b)]) \<noteq> []"
        using b(2) by (rule join_snoc_ne)
      then have "rtrim (join [NL] (l # M)) = l @ NL # join [NL] (take b M @ [rtrim (M ! b)])"
        using b(3) by (simp add: j rtrim_append rtrim_Cons)
      also have "\<dots> = join [NL] (l # take b M @ [rtrim (M ! b)])"
        by (simp add: join_Cons)
      finally have "Suc b < length (l # M) \<and> rtrim ((l # M) ! Suc b) \<noteq> [] \<and>
          rtrim (join [NL] (l # M)) = join [NL] (take (Suc b) (l # M) @ [rtrim ((l # M) ! Suc b)])"
        using b by simp
      then show ?thesis by blast
    qed
  qed
qed

subsection \<open>The lines kept by a cut\<close>

lemma kept_lines:
  assumes nl: "\<forall>l \<in> set M. NL \<notin> set l" and ne: "trim (join [NL] M) \<noteq> []"
  shows "\<exists>a. a + length (split_nl (trim (join [NL] M))) \<le> length M
           \<and> (\<forall>j < length (split_nl (trim (join [NL] M))).
                 trim (split_nl (trim (join [NL] M)) ! j) = trim (M ! (a + j)))"
proof -
  from ne have lne: "ltrim (join [NL] M) \<noteq> []" by (auto simp: trim_lr rtrim_def)
  with ltrim_join[of M] obtain a where a: "a < length M" "ltrim (M ! a) \<noteq> []"
    and la: "ltrim (join [NL] M) = join [NL] (ltrim (M ! a) # drop (Suc a) M)" by blast
  let ?M' = "ltrim (M ! a) # drop (Suc a) M"
  have len': "length ?M' = length M - a" using a(1) by simp
  have tr': "\<And>j. j < length ?M' \<Longrightarrow> trim (?M' ! j) = trim (M ! (a + j))"
  proof -
    fix j assume "j < length ?M'"
    then show "trim (?M' ! j) = trim (M ! (a + j))"
      using a(1) by (cases j) (simp_all add: trim_ltrim)
  qed
  have nl': "\<forall>l \<in> set ?M'. NL \<notin> set l"
  proof
    fix l assume "l \<in> set ?M'"
    then have "l = ltrim (M ! a) \<or> l \<in> set (drop (Suc a) M)" by simp
    then show "NL \<notin> set l"
    proof
      assume "l = ltrim (M ! a)"
      then show ?thesis using set_ltrim[of "M ! a"] nl a(1) nth_mem[of a M] by auto
    next
      assume "l \<in> set (drop (Suc a) M)"
      then have "l \<in> set M" by (rule in_set_dropD)
      then show ?thesis using nl by simp
    qed
  qed
  from ne have "rtrim (join [NL] ?M') \<noteq> []" by (simp add: trim_lr la)
  with rtrim_join[of ?M'] obtain b where b: "b < length ?M'" "rtrim (?M' ! b) \<noteq> []"
    and rb: "rtrim (join [NL] ?M') = join [NL] (take b ?M' @ [rtrim (?M' ! b)])" by blast
  let ?K = "take b ?M' @ [rtrim (?M' ! b)]"
  have nlK: "\<forall>l \<in> set ?K. NL \<notin> set l"
  proof
    fix l assume "l \<in> set ?K"
    then have "l \<in> set (take b ?M') \<or> l = rtrim (?M' ! b)" by auto
    then show "NL \<notin> set l"
    proof
      assume "l \<in> set (take b ?M')"
      then have "l \<in> set ?M'" by (rule in_set_takeD)
      then show ?thesis using nl' by blast
    next
      assume "l = rtrim (?M' ! b)"
      then show ?thesis using set_rtrim[of "?M' ! b"] nl' b(1) nth_mem[of b ?M'] by blast
    qed
  qed
  have K: "split_nl (trim (join [NL] M)) = ?K"
    using split_join[of ?K] nlK by (simp add: trim_lr la rb del: join.simps)
  have lenK: "length ?K = Suc b" using b(1) by simp
  have trK: "\<And>j. j < Suc b \<Longrightarrow> trim (?K ! j) = trim (M ! (a + j))"
  proof -
    fix j assume j: "j < Suc b"
    show "trim (?K ! j) = trim (M ! (a + j))"
    proof (cases "j < b")
      case True
      then have "?K ! j = ?M' ! j" using b(1) by (simp add: nth_append)
      then show ?thesis using tr'[of j] True b(1) by simp
    next
      case False
      with j have jb: "j = b" by simp
      have "?K ! b = rtrim (?M' ! b)" using b(1) by (simp add: nth_append)
      then show ?thesis using tr'[OF b(1)] jb by (simp add: trim_rtrim)
    qed
  qed
  have "a + length ?K \<le> length M" using lenK b(1) len' by simp
  then show ?thesis using K lenK trK by (metis (no_types, lifting))
qed

lemma first_cut_None: "first_cut L i = None \<longleftrightarrow> (\<forall>j. i \<le> j \<and> j < length L \<longrightarrow> \<not> is_cut L j)"
proof (induction L i rule: first_cut.induct)
  case (1 lines i)
  show ?case
  proof (cases "i < length lines")
    case False
    then show ?thesis by (auto simp: first_cut.simps[of lines i])
  next
    case True
    show ?thesis
    proof (cases "is_cut lines i")
      case c: True
      then show ?thesis using True by (auto simp: first_cut.simps[of lines i])
    next
      case c: False
      have "(\<forall>j. Suc i \<le> j \<and> j < length lines \<longrightarrow> \<not> is_cut lines j)
          \<longleftrightarrow> (\<forall>j. i \<le> j \<and> j < length lines \<longrightarrow> \<not> is_cut lines j)"
        using c by (metis Suc_leD Suc_leI le_neq_implies_less)
      then show ?thesis using True c 1 by (simp add: first_cut.simps[of lines i])
    qed
  qed
qed

lemma first_cut_Some:
  "first_cut L i = Some c \<Longrightarrow>
     i \<le> c \<and> c < length L \<and> is_cut L c \<and> (\<forall>j. i \<le> j \<and> j < c \<longrightarrow> \<not> is_cut L j)"
proof (induction L i rule: first_cut.induct)
  case (1 lines i)
  show ?case
  proof (cases "i < length lines")
    case False
    then show ?thesis using 1(2) by (simp add: first_cut.simps[of lines i])
  next
    case True
    show ?thesis
    proof (cases "is_cut lines i")
      case c: True
      then show ?thesis using True 1(2) by (auto simp: first_cut.simps[of lines i])
    next
      case c: False
      then have "first_cut lines (Suc i) = Some c" using True 1(2)
        by (simp add: first_cut.simps[of lines i])
      from 1(1)[OF True c this] show ?thesis using c
        by (metis Suc_leD Suc_leI le_neq_implies_less)
    qed
  qed
qed

subsection \<open>The notice matches no pattern\<close>

lemma removed_notice_text: "removed_notice n = NL # NL # notice_text n"
  by (simp add: removed_notice_def notice_text_def)

lemma is_cut_alt:
  "is_cut L i \<longleftrightarrow> marker_line (trim (L ! i)) \<or> (test from_header (trim (L ! i)) \<and> date_follows L i)"
  by (simp add: is_cut_def marker_line_def Let_def)

lemma date_follows_iff:
  "date_follows L i \<longleftrightarrow>
     (\<exists>j. i < j \<and> j < i + 8 \<and> j < length L \<and> test date_header (trim (L ! j)))"
proof -
  have "date_follows L i \<longleftrightarrow>
      (\<exists>j \<in> set [i + 1 ..< min (i + 8) (length L)]. test date_header (trim (L ! j)))"
    by (simp add: date_follows_def list_ex_iff)
  also have "\<dots> \<longleftrightarrow> (\<exists>j. (i < j \<and> j < i + 8 \<and> j < length L) \<and> test date_header (trim (L ! j)))"
    unfolding Bex_def by (rule ex_cong1) auto
  finally show ?thesis by simp
qed

lemma digit_char_digit: "digit_char d \<in> set ''0123456789''"
proof -
  have "d mod 10 < length ''0123456789''" by simp
  then show ?thesis unfolding digit_char_def by (rule nth_mem)
qed

lemma show_nat_digits: "set (show_nat n) \<subseteq> set ''0123456789''"
proof (induction n rule: show_nat.induct)
  case (1 n)
  show ?case
  proof (cases "n < 10")
    case True
    then show ?thesis using digit_char_digit[of n] by (subst show_nat.simps) simp
  next
    case False
    then show ?thesis using 1 digit_char_digit[of n] by (subst show_nat.simps) simp
  qed
qed

lemma notice_no_nl: "NL \<notin> set (notice_text n)"
  using show_nat_digits[of n] by (auto simp: notice_text_def)

lemma notice_bracket: "\<exists>u. notice_text n = CHR ''['' # u"
  by (simp add: notice_text_def)

lemma trim_notice: "trim (notice_text n) = notice_text n"
  by (simp add: trim_def notice_text_def is_space_def)

lemma trim_empty: "trim [] = []"
  by (simp add: trim_def)

lemma rm_Seq_none: "rm a c = [] \<Longrightarrow> rm (Seq a b) c = []"
  by simp

lemma rm_chr_other: "x \<noteq> y \<Longrightarrow> rm (chr x) (p, y # u) = []"
  by (simp add: chr_def)

lemma rm_lit_other: "x \<noteq> y \<Longrightarrow> rm (lit (x # s)) (p, y # u) = []"
  by (simp add: lit_def seqs_def chr_def)

lemma rm_lit_ci_other: "lower y \<noteq> lower x \<Longrightarrow> rm (lit_ci (x # s)) (p, y # u) = []"
  by (simp add: lit_ci_def seqs_def chr_ci_def)

lemma lower_bracket: "lower CHR ''['' = CHR ''[''"
  by (simp add: lower_def)

lemma bracket_forward_marker: "\<not> test forward_marker (CHR ''['' # u)"
  by (simp add: forward_marker_def seqs_def dashes_def test_Bol eval_nat_numeral chr_def)

lemma bracket_begin_forwarded: "\<not> test begin_forwarded (CHR ''['' # u)"
  by (simp add: begin_forwarded_def seqs_def test_Bol rm_lit_ci_other lower_def del: rm.simps)
     (simp add: rm_lit_ci_other lower_def)

lemma bracket_on_wrote: "\<not> test on_wrote (CHR ''['' # u)"
  by (simp add: on_wrote_def seqs_def test_Bol rm_lit_other)

lemma bracket_am_schrieb: "\<not> test am_schrieb (CHR ''['' # u)"
  by (simp add: am_schrieb_def seqs_def test_Bol rm_lit_other)

lemma bracket_le_ecrit: "\<not> test le_ecrit (CHR ''['' # u)"
  by (simp add: le_ecrit_def seqs_def test_Bol rm_lit_ci_other lower_def)

lemma bracket_from_header: "\<not> test from_header (CHR ''['' # u)"
  by (simp add: from_header_def seqs_def test_Bol rm_lit_other)

lemma bracket_date_header: "\<not> test date_header (CHR ''['' # u)"
  by (simp add: date_header_def seqs_def test_Bol rm_lit_other)

lemma empty_no_match:
  "\<not> marker_line []" "\<not> test from_header []" "\<not> test date_header []"
  by code_simp+

lemma notice_no_match:
  "\<not> marker_line (notice_text n)" "\<not> test from_header (notice_text n)"
  "\<not> test date_header (notice_text n)"
proof -
  obtain u where u: "notice_text n = CHR ''['' # u" using notice_bracket by blast
  show "\<not> marker_line (notice_text n)"
    by (simp add: u marker_line_def bracket_forward_marker bracket_begin_forwarded
        bracket_on_wrote bracket_am_schrieb bracket_le_ecrit)
  show "\<not> test from_header (notice_text n)" by (simp add: u bracket_from_header)
  show "\<not> test date_header (notice_text n)" by (simp add: u bracket_date_header)
qed

subsection \<open>stripQuotedContent is idempotent\<close>

lemma cut_is_final:
  assumes fc: "first_cut (split_nl x) 0 = Some c"
    and ne: "trim (join [NL] (take c (split_nl x))) \<noteq> []"
  shows "first_cut (split_nl (trim (join [NL] (take c (split_nl x))) @ removed_notice n)) 0 = None"
proof -
  let ?L = "split_nl x"
  let ?M = "take c ?L"
  let ?kept = "trim (join [NL] ?M)"
  let ?K = "split_nl ?kept"
  let ?N = "notice_text n"
  let ?L' = "?K @ [[], ?N]"
  from first_cut_Some[OF fc] have c: "c < length ?L"
    and before: "\<And>j. j < c \<Longrightarrow> \<not> is_cut ?L j" by auto
  have nlM: "\<forall>l \<in> set ?M. NL \<notin> set l"
    using split_nl_lines[of _ x] by (meson in_set_takeD)
  from kept_lines[OF nlM ne] obtain a where a: "a + length ?K \<le> length ?M"
    and tr: "\<And>j. j < length ?K \<Longrightarrow> trim (?K ! j) = trim (?M ! (a + j))" by blast
  have lenM: "length ?M = c" using c by simp
  have trL: "\<And>j. j < length ?K \<Longrightarrow> trim (?K ! j) = trim (?L ! (a + j)) \<and> a + j < c"
  proof -
    fix j assume j: "j < length ?K"
    then have "a + j < c" using a lenM by simp
    then show "trim (?K ! j) = trim (?L ! (a + j)) \<and> a + j < c" using tr[OF j] by simp
  qed
  have sp: "split_nl (?kept @ removed_notice n) = ?L'"
    using split_nl_no_nl[OF notice_no_nl[of n]]
    by (simp add: removed_notice_text split_nl_append)
  have tail: "\<And>j. length ?K \<le> j \<Longrightarrow> j < length ?L' \<Longrightarrow>
      \<not> marker_line (trim (?L' ! j)) \<and> \<not> test from_header (trim (?L' ! j))
      \<and> \<not> test date_header (trim (?L' ! j))"
  proof -
    fix j assume "length ?K \<le> j" and "j < length ?L'"
    then have "j = length ?K \<or> j = Suc (length ?K)" by auto
    then have "?L' ! j = [] \<or> ?L' ! j = ?N" by (auto simp: nth_append)
    then show "\<not> marker_line (trim (?L' ! j)) \<and> \<not> test from_header (trim (?L' ! j))
      \<and> \<not> test date_header (trim (?L' ! j))"
      using empty_no_match notice_no_match[of n] by (auto simp: trim_empty trim_notice)
  qed
  have head: "\<And>j. j < length ?K \<Longrightarrow> trim (?L' ! j) = trim (?L ! (a + j)) \<and> a + j < c"
    using trL by (simp add: nth_append)
  have "\<And>j. j < length ?L' \<Longrightarrow> \<not> is_cut ?L' j"
  proof -
    fix j assume j: "j < length ?L'"
    show "\<not> is_cut ?L' j"
    proof (cases "j < length ?K")
      case False
      then show ?thesis using tail[of j] j by (simp add: is_cut_alt)
    next
      case True
      from head[OF True] have e: "trim (?L' ! j) = trim (?L ! (a + j))" and lt: "a + j < c" by simp_all
      from before[OF lt] have nm: "\<not> marker_line (trim (?L ! (a + j)))"
        and nd: "test from_header (trim (?L ! (a + j))) \<Longrightarrow> \<not> date_follows ?L (a + j)"
        by (simp_all add: is_cut_alt)
      have "test from_header (trim (?L ! (a + j))) \<Longrightarrow> \<not> date_follows ?L' j"
      proof
        assume f: "test from_header (trim (?L ! (a + j)))" and d: "date_follows ?L' j"
        from d obtain k where k: "j < k" "k < j + 8" "k < length ?L'"
          and t: "test date_header (trim (?L' ! k))" by (auto simp: date_follows_iff)
        show False
        proof (cases "k < length ?K")
          case False
          then show False using tail[of k] k(3) t by simp
        next
          case kK: True
          from head[OF kK] have "trim (?L' ! k) = trim (?L ! (a + k))" and "a + k < c" by simp_all
          then have "a + j < a + k \<and> a + k < (a + j) + 8 \<and> a + k < length ?L
              \<and> test date_header (trim (?L ! (a + k)))"
            using k t c by simp
          then have "date_follows ?L (a + j)" unfolding date_follows_iff by blast
          then show False using nd[OF f] by simp
        qed
      qed
      then show ?thesis using nm e by (auto simp: is_cut_alt)
    qed
  qed
  then have "first_cut ?L' 0 = None" by (simp add: first_cut_None)
  then show ?thesis by (simp only: sp)
qed

lemma stripQuotedContent_cases:
  "stripQuotedContent x = x \<or>
   (\<exists>c n. first_cut (split_nl x) 0 = Some c
      \<and> 10 \<le> length (trim (join [NL] (take c (split_nl x))))
      \<and> stripQuotedContent x = trim (join [NL] (take c (split_nl x))) @ removed_notice n)"
  by (auto simp: stripQuotedContent_def Let_def split: option.splits)

lemma stripQuotedContent_idem: "stripQuotedContent (stripQuotedContent x) = stripQuotedContent x"
proof -
  from stripQuotedContent_cases[of x] show ?thesis
  proof
    assume "stripQuotedContent x = x"
    then show ?thesis by simp
  next
    assume "\<exists>c n. first_cut (split_nl x) 0 = Some c
      \<and> 10 \<le> length (trim (join [NL] (take c (split_nl x))))
      \<and> stripQuotedContent x = trim (join [NL] (take c (split_nl x))) @ removed_notice n"
    then obtain c n where fc: "first_cut (split_nl x) 0 = Some c"
      and len: "10 \<le> length (trim (join [NL] (take c (split_nl x))))"
      and y: "stripQuotedContent x = trim (join [NL] (take c (split_nl x))) @ removed_notice n"
      by blast
    from len have ne: "trim (join [NL] (take c (split_nl x))) \<noteq> []" by auto
    have "first_cut (split_nl (stripQuotedContent x)) 0 = None"
      unfolding y by (rule cut_is_final[OF fc ne])
    then have "stripQuotedContent (stripQuotedContent x) = stripQuotedContent x"
      by (simp add: stripQuotedContent_def[of "stripQuotedContent x"] Let_def)
    then show ?thesis .
  qed
qed

subsection \<open>Patterns that cannot match without their first character\<close>

lemma starts_on_no_match:
  assumes "starts_on P r" and "\<forall>c \<in> set s. \<not> P c" and "suffix b s"
  shows "rm r (p, b) = []"
proof (cases b)
  case Nil
  then show ?thesis using assms(1) by (simp add: starts_on_def)
next
  case (Cons c u)
  then have "c \<in> set s" using assms(3) by (auto simp: suffix_def)
  then show ?thesis using assms(1,2) Cons by (simp add: starts_on_def)
qed

lemma replace_all_no_match:
  "(\<And>p b. suffix b s \<Longrightarrow> rm r (p, b) = []) \<Longrightarrow> replace_all r rp q s = s"
proof (induction s arbitrary: q)
  case Nil
  have "rm r (q, []) = []" using Nil[of "[]" q] by simp
  then show ?case by (simp add: replace_all.simps[of r rp q "[]"])
next
  case (Cons c s)
  have "rm r (q, c # s) = []" using Cons.prems[of "c # s" q] by simp
  moreover have "replace_all r rp (Some c) s = s"
  proof (rule Cons.IH)
    fix p' b assume "suffix b s"
    then have "suffix b (c # s)" by (rule suffix_ConsI)
    then show "rm r (p', b) = []" by (rule Cons.prems)
  qed
  ultimately show ?case by (simp add: replace_all.simps[of r rp q "c # s"])
qed

lemma replace_all_absent:
  "starts_on P r \<Longrightarrow> \<forall>c \<in> set s. \<not> P c \<Longrightarrow> replace_all r rp q s = s"
  by (rule replace_all_no_match) (rule starts_on_no_match)

lemma find_at_absent:
  "starts_on P r \<Longrightarrow> \<forall>c \<in> set s. \<not> P c \<Longrightarrow> find_at r q s = None"
  by (rule find_at_none) (rule starts_on_no_match)

lemma lower_lt: "lower c = CHR ''<'' \<longleftrightarrow> c = CHR ''<''"
  by (simp add: lower_def)

lemma lower_lt_const: "lower CHR ''<'' = CHR ''<''"
  by (simp add: lower_def)

lemma rm_chr_ci_lt: "c \<noteq> CHR ''<'' \<Longrightarrow> rm (chr_ci CHR ''<'') (p, c # u) = []"
  by (simp add: chr_ci_def lower_lt_const lower_lt)

lemma rm_chr_ci_nil: "rm (chr_ci x) (p, []) = []"
  by (simp add: chr_ci_def)

lemma starts_on_Seq: "starts_on P a \<Longrightarrow> starts_on P (Seq a b)"
  by (simp add: starts_on_def)

lemma starts_on_chr_ci_lt: "starts_on (\<lambda>c. c = CHR ''<'') (chr_ci CHR ''<'')"
  by (simp add: starts_on_def rm_chr_ci_lt rm_chr_ci_nil)

lemma starts_on_lit_ci_lt:
  "starts_on (\<lambda>c. c = CHR ''<'') (Seq (lit_ci (CHR ''<'' # s)) r)"
proof -
  have "lit_ci (CHR ''<'' # s) = Seq (chr_ci CHR ''<'') (lit_ci s)"
    by (simp add: lit_ci_def seqs_def)
  then show ?thesis by (simp add: starts_on_Seq starts_on_chr_ci_lt del: rm.simps)
qed

lemma starts_on_lit_amp:
  "starts_on (\<lambda>c. c = CHR ''&'') (lit (CHR ''&'' # s))"
  by (simp add: starts_on_def lit_def seqs_def chr_def)

lemma starts_on_quote_patterns: "pat \<in> set htmlQuotePatterns \<Longrightarrow> starts_on (\<lambda>c. c = CHR ''<'') pat"
  by (auto simp: htmlQuotePatterns_def div_class_pattern_def seqs_def starts_on_lit_ci_lt
      simp del: rm.simps)

lemma starts_on_br: "starts_on (\<lambda>c. c = CHR ''<'') br_pattern"
  by (simp add: br_pattern_def seqs_def starts_on_lit_ci_lt del: rm.simps)

lemma starts_on_close_block: "starts_on (\<lambda>c. c = CHR ''<'') close_block_pattern"
  by (simp add: close_block_pattern_def seqs_def starts_on_lit_ci_lt del: rm.simps)

lemma starts_on_tag: "starts_on (\<lambda>c. c = CHR ''<'') tag_pattern"
  by (simp add: tag_pattern_def seqs_def starts_on_def chr_def)

lemma cut_quote_absent:
  "\<forall>c \<in> set s. c \<noteq> CHR ''<'' \<Longrightarrow> \<forall>pat \<in> set pats. starts_on (\<lambda>c. c = CHR ''<'') pat \<Longrightarrow>
     cut_quote pats s = s"
proof (induction pats)
  case Nil
  then show ?case by simp
next
  case (Cons pat pats)
  then have "find_at pat None s = None" using find_at_absent[of "\<lambda>c. c = CHR ''<''" pat s None] by simp
  then show ?case using Cons by simp
qed

lemma decode_entities_absent: "\<forall>c \<in> set s. c \<noteq> CHR ''&'' \<Longrightarrow> decode_entities s = s"
  by (simp add: decode_entities_def replace_all_absent[OF starts_on_lit_amp])

subsection \<open>Collapsing blanks and capping newlines\<close>

lemma iter_greedy_run_gen:
  assumes nil: "\<And>q. step (q, []) = []"
    and cons: "\<And>q c u. step (q, c # u) = (if P c then [(Some c, u)] else [])"
  shows "length u \<le> n \<Longrightarrow> \<exists>q' rest. iter_greedy step n (q, u) = (q', dropWhile P u) # rest"
proof (induction n arbitrary: q u)
  case 0
  then show ?case by simp
next
  case (Suc n)
  show ?case
  proof (cases u)
    case Nil
    then show ?thesis by (simp add: nil)
  next
    case (Cons c u')
    show ?thesis
    proof (cases "P c")
      case False
      then show ?thesis using Cons by (simp add: cons)
    next
      case True
      from Suc.prems Cons have "length u' \<le> n" by simp
      from Suc.IH[OF this, of "Some c"] obtain q' rest where
        "iter_greedy step n (Some c, u') = (q', dropWhile P u') # rest" by blast
      then show ?thesis using Cons True by (simp add: cons)
    qed
  qed
qed

lemma rm_star_run: "\<exists>q' rest. rm (Star (Sat P)) (q, u) = (q', dropWhile P u) # rest"
proof -
  have "\<exists>q' rest. iter_greedy (rm (Sat P)) (length u) (q, u) = (q', dropWhile P u) # rest"
    by (rule iter_greedy_run_gen) simp_all
  then show ?thesis by simp
qed

lemma rm_plus_blank:
  "rm (Plus (Sat P)) (p, []) = []"
  "\<not> P x \<Longrightarrow> rm (Plus (Sat P)) (p, x # u) = []"
  "P x \<Longrightarrow> \<exists>q' rest. rm (Plus (Sat P)) (p, x # u) = (q', dropWhile P u) # rest"
proof -
  show "rm (Plus (Sat P)) (p, []) = []" by (simp add: Plus_def)
  show "\<not> P x \<Longrightarrow> rm (Plus (Sat P)) (p, x # u) = []" by (simp add: Plus_def)
  assume "P x"
  then have "rm (Plus (Sat P)) (p, x # u) = rm (Star (Sat P)) (Some x, u)"
    by (simp add: Plus_def del: rm.simps(5)) 
  then show "\<exists>q' rest. rm (Plus (Sat P)) (p, x # u) = (q', dropWhile P u) # rest"
    using rm_star_run[of P "Some x" u] by simp
qed

lemma blanks_pattern_alt: "blanks_pattern = Plus (Sat is_blank)"
proof -
  have "(\<lambda>c. c = CHR '' '' \<or> c = CHR 0x09) = is_blank" by (rule ext) (simp add: is_blank_def)
  then show ?thesis by (simp add: blanks_pattern_def)
qed

lemma replace_blanks: "replace_all blanks_pattern '' '' p s = collapse s"
proof (induction s arbitrary: p rule: collapse.induct)
  case 1
  then show ?case
    by (simp add: replace_all.simps[of _ _ _ "[]"] blanks_pattern_alt rm_plus_blank(1))
next
  case (2 x u)
  show ?case
  proof (cases "is_blank x")
    case False
    then show ?thesis using 2(2)[OF False, of "Some x"]
      by (simp add: replace_all.simps[of _ _ _ "x # u"] blanks_pattern_alt rm_plus_blank(2))
  next
    case True
    from rm_plus_blank(3)[of is_blank x p u] True obtain q' rest where
      r: "rm (Plus (Sat is_blank)) (p, x # u) = (q', dropWhile is_blank u) # rest" by blast
    have l: "length (dropWhile is_blank u) < length (x # u)"
      using length_dropWhile_le[of is_blank u] by simp
    show ?thesis using 2(1)[OF True, of q'] True l
      by (simp add: replace_all.simps[of _ _ _ "x # u"] blanks_pattern_alt r)
  qed
qed

lemma rm_newlines:
  "rm newlines_pattern (p, s) =
     (case s of
        a # b # c # u \<Rightarrow> if a = NL \<and> b = NL \<and> c = NL then rm (Star (chr NL)) (Some c, u) else []
      | _ \<Rightarrow> [])"
  by (simp add: newlines_pattern_def chr_def numeral_3_eq_3 split: list.splits del: rm.simps(5))

lemma chr_nl: "chr NL = Sat is_nl"
proof -
  have "(\<lambda>c. c = NL) = is_nl" by (rule ext) (simp add: is_nl_def)
  then show ?thesis by (simp add: chr_def)
qed

lemma take2_eq: "take 2 u = [a, b] \<longleftrightarrow> (\<exists>v. u = a # b # v)"
  by (cases u; cases "tl u") (auto simp: numeral_2_eq_2)

lemma replace_newlines: "replace_all newlines_pattern [NL, NL] p s = cap s"
proof (induction s arbitrary: p rule: cap.induct)
  case 1
  then show ?case by (simp add: replace_all.simps[of _ _ _ "[]"] rm_newlines)
next
  case (2 x u)
  show ?case
  proof (cases "x = NL \<and> take 2 u = [NL, NL]")
    case False
    then have "rm newlines_pattern (p, x # u) = []"
      by (auto simp: rm_newlines take2_eq split: list.splits)
    moreover have "cap (x # u) = x # cap u" using False by auto
    ultimately show ?thesis using 2(2)[OF False, of "Some x"]
      by (simp add: replace_all.simps[of _ _ _ "x # u"] del: cap.simps)
  next
    case True
    then obtain v where v: "u = NL # NL # v" and x: "x = NL" by (auto simp: take2_eq)
    from rm_star_run[of is_nl "Some NL" v] obtain q' rest where
      r: "rm (Star (chr NL)) (Some NL, v) = (q', dropWhile is_nl v) # rest"
      by (auto simp: chr_nl)
    have l: "length (dropWhile is_nl v) < length (x # u)"
      using length_dropWhile_le[of is_nl v] v by simp
    have d: "drop 2 u = v" using v by simp
    have m: "rm newlines_pattern (p, x # u) = (q', dropWhile is_nl v) # rest"
      by (simp add: rm_newlines v x r del: rm.simps(5))
    have "replace_all newlines_pattern [NL, NL] p (x # u) =
        [NL, NL] @ replace_all newlines_pattern [NL, NL] q' (dropWhile is_nl v)"
      using l by (subst replace_all.simps) (simp add: m)
    moreover have "cap (x # u) = NL # NL # cap (dropWhile is_nl v)" using True d by simp
    ultimately show ?thesis using 2(1)[OF True, of q'] d by simp
  qed
qed

lemma collapse_head: "\<not> is_blank x \<Longrightarrow> collapse (x # u) = x # collapse u"
  by simp

lemma dropWhile_head: "dropWhile P u = y # v \<Longrightarrow> \<not> P y"
  using hd_dropWhile[of P u] by simp

lemma collapse_tidy: "tidy_blanks (collapse s)"
proof (induction s rule: collapse.induct)
  case 1
  then show ?case by simp
next
  case (2 x u)
  show ?case
  proof (cases "is_blank x")
    case False
    then show ?thesis using 2(2) by simp
  next
    case True
    have "case collapse (dropWhile is_blank u) of [] \<Rightarrow> True | y # v \<Rightarrow> \<not> is_blank y"
    proof (cases "dropWhile is_blank u")
      case Nil
      then have "collapse (dropWhile is_blank u) = []" by (simp only: collapse.simps)
      then show ?thesis by simp
    next
      case (Cons y v)
      then have "\<not> is_blank y" by (rule dropWhile_head)
      then show ?thesis using Cons by simp
    qed
    then show ?thesis using True 2(1) by simp
  qed
qed

lemma tidy_blanks_id: "tidy_blanks s \<Longrightarrow> collapse s = s"
proof (induction s rule: collapse.induct)
  case 1
  then show ?case by simp
next
  case (2 x u)
  show ?case
  proof (cases "is_blank x")
    case False
    then show ?thesis using 2 by simp
  next
    case True
    with 2(3) have x: "x = CHR '' ''" and nx: "case u of [] \<Rightarrow> True | y # v \<Rightarrow> \<not> is_blank y"
      and t: "tidy_blanks u" by simp_all
    from nx have d: "dropWhile is_blank u = u" by (cases u) simp_all
    from 2(1)[OF True] t d have "collapse u = u" by simp
    then show ?thesis using True x d by simp
  qed
qed

lemma cap_head: "\<exists>w. cap (y # v) = y # w"
  by simp

lemma cap_Nil_iff: "cap u = [] \<longleftrightarrow> u = []"
  by (cases u) simp_all

lemma take2_cap: "take 2 (cap u) = [NL, NL] \<Longrightarrow> take 2 u = [NL, NL]"
proof -
  assume a: "take 2 (cap u) = [NL, NL]"
  then obtain w where w: "cap u = NL # NL # w" by (auto simp: take2_eq)
  then obtain v where v: "u = NL # v" by (cases u) (auto split: if_splits)
  show ?thesis
  proof (cases "take 2 v = [NL, NL]")
    case True
    then show ?thesis using v by (auto simp: take2_eq)
  next
    case False
    then have "cap u = NL # cap v" using v by auto
    with w have "cap v = NL # w" by simp
    then obtain v' where "v = NL # v'" by (cases v) (auto split: if_splits)
    then show ?thesis using v by simp
  qed
qed

lemma cap_tidy_newlines: "tidy_newlines (cap s)"
proof (induction s rule: cap.induct)
  case 1
  then show ?case by simp
next
  case (2 x u)
  show ?case
  proof (cases "x = NL \<and> take 2 u = [NL, NL]")
    case True
    let ?d = "dropWhile is_nl (drop 2 u)"
    have h: "take 2 (cap ?d) \<noteq> [NL, NL] \<and> take 2 (NL # cap ?d) \<noteq> [NL, NL]"
    proof (cases ?d)
      case Nil
      then have "cap ?d = []" by (simp only: cap.simps)
      then show ?thesis by simp
    next
      case (Cons y v)
      then have "\<not> is_nl y" by (rule dropWhile_head)
      then have "y \<noteq> NL" by (simp add: is_nl_def)
      moreover obtain w where "cap ?d = y # w" using Cons cap_head[of y v] by auto
      ultimately show ?thesis by simp
    qed
    have "cap (x # u) = NL # NL # cap ?d" using True by simp
    then show ?thesis using h 2(1)[OF True] by simp
  next
    case False
    then have c: "cap (x # u) = x # cap u" by auto
    have "\<not> (x = NL \<and> take 2 (cap u) = [NL, NL])" using False take2_cap[of u] by blast
    then show ?thesis using c 2(2)[OF False] by simp
  qed
qed

lemma tidy_newlines_id: "tidy_newlines s \<Longrightarrow> cap s = s"
  by (induction s rule: cap.induct) auto

lemma tidy_blanks_suffix: "tidy_blanks (a @ b) \<Longrightarrow> tidy_blanks b"
  by (induction a) simp_all

lemma tidy_newlines_suffix: "tidy_newlines (a @ b) \<Longrightarrow> tidy_newlines b"
  by (induction a) simp_all

lemma tidy_blanks_prefix: "tidy_blanks (a @ b) \<Longrightarrow> tidy_blanks a"
proof (induction a)
  case Nil
  then show ?case by simp
next
  case (Cons x a)
  then show ?case by (cases a) auto
qed

lemma take2_append: "take 2 a = [x, y] \<Longrightarrow> take 2 (a @ b) = [x, y]"
  by (auto simp: take2_eq)

lemma tidy_newlines_prefix: "tidy_newlines (a @ b) \<Longrightarrow> tidy_newlines a"
proof (induction a)
  case Nil
  then show ?case by simp
next
  case (Cons x a)
  then show ?case using take2_append[of a NL NL b] by auto
qed

lemma dropWhile_suffix: "\<exists>a. s = a @ dropWhile P s"
  by (metis takeWhile_dropWhile_id)

lemma rtrim_prefix: "\<exists>t. s = rtrim s @ t"
proof -
  have "rev s = takeWhile is_space (rev s) @ dropWhile is_space (rev s)" by simp
  then have "s = rev (dropWhile is_space (rev s)) @ rev (takeWhile is_space (rev s))"
    by (metis rev_append rev_rev_ident)
  then show ?thesis unfolding rtrim_def by blast
qed

lemma trim_tidy_blanks: "tidy_blanks s \<Longrightarrow> tidy_blanks (trim s)"
proof -
  assume t: "tidy_blanks s"
  obtain a where "s = a @ ltrim s" using dropWhile_suffix[of s is_space] by (auto simp: ltrim_def)
  with t have l: "tidy_blanks (ltrim s)" using tidy_blanks_suffix by metis
  obtain b where "ltrim s = rtrim (ltrim s) @ b" using rtrim_prefix by blast
  with l show ?thesis using tidy_blanks_prefix unfolding trim_lr by metis
qed

lemma trim_tidy_newlines: "tidy_newlines s \<Longrightarrow> tidy_newlines (trim s)"
proof -
  assume t: "tidy_newlines s"
  obtain a where "s = a @ ltrim s" using dropWhile_suffix[of s is_space] by (auto simp: ltrim_def)
  with t have l: "tidy_newlines (ltrim s)" using tidy_newlines_suffix by metis
  obtain b where "ltrim s = rtrim (ltrim s) @ b" using rtrim_prefix by blast
  with l show ?thesis using tidy_newlines_prefix unfolding trim_lr by metis
qed

lemma cap_tidy_blanks: "tidy_blanks s \<Longrightarrow> tidy_blanks (cap s)"
proof (induction s rule: cap.induct)
  case 1
  then show ?case by simp
next
  case (2 x u)
  from 2(3) have tu: "tidy_blanks u" by simp
  show ?case
  proof (cases "x = NL \<and> take 2 u = [NL, NL]")
    case True
    let ?d = "dropWhile is_nl (drop 2 u)"
    obtain a where "drop 2 u = a @ ?d" using dropWhile_suffix by blast
    then have "u = (take 2 u @ a) @ ?d" by (metis append_take_drop_id append.assoc)
    with tu have "tidy_blanks ?d" using tidy_blanks_suffix by metis
    from 2(1)[OF True this] have "tidy_blanks (cap ?d)" .
    moreover have "\<not> is_blank NL" by (simp add: is_blank_def)
    moreover have "cap (x # u) = NL # NL # cap ?d" using True by simp
    ultimately show ?thesis by simp
  next
    case False
    then have c: "cap (x # u) = x # cap u" by auto
    have n: "is_blank x \<Longrightarrow> (case cap u of [] \<Rightarrow> True | y # v \<Rightarrow> \<not> is_blank y)"
    proof -
      assume "is_blank x"
      with 2(3) have nx: "case u of [] \<Rightarrow> True | y # v \<Rightarrow> \<not> is_blank y" by simp
      show ?thesis
      proof (cases u)
        case Nil
        then show ?thesis by simp
      next
        case (Cons y v)
        then obtain w where "cap u = y # w" using cap_head[of y v] by auto
        then show ?thesis using nx Cons by simp
      qed
    qed
    show ?thesis using c n 2(2)[OF False tu] 2(3) by simp
  qed
qed

lemma strip_tags_alt: "strip_tags w =
    trim (cap (collapse (decode_entities
           (replace_all tag_pattern [] None
             (replace_all close_block_pattern [NL] None
               (replace_all br_pattern [NL] None w))))))"
  by (simp add: strip_tags_def replace_blanks replace_newlines)

lemma strip_tags_tidy:
  "tidy_blanks (strip_tags w)" "tidy_newlines (strip_tags w)" "trim (strip_tags w) = strip_tags w"
proof -
  show "tidy_blanks (strip_tags w)"
    unfolding strip_tags_alt by (intro trim_tidy_blanks cap_tidy_blanks collapse_tidy)
  show "tidy_newlines (strip_tags w)"
    unfolding strip_tags_alt by (intro trim_tidy_newlines cap_tidy_newlines)
  show "trim (strip_tags w) = strip_tags w"
    unfolding strip_tags_alt by (rule trim_idem)
qed

lemma strip_tags_fix:
  assumes "tidy_blanks y" "tidy_newlines y" "trim y = y"
    and lt: "CHR ''<'' \<notin> set y" and amp: "CHR ''&'' \<notin> set y"
  shows "strip_tags y = y"
proof -
  from lt have l: "\<forall>c \<in> set y. \<not> c = CHR ''<''" by auto
  from amp have a: "\<forall>c \<in> set y. c \<noteq> CHR ''&''" by auto
  have 1: "replace_all br_pattern [NL] None y = y"
    by (rule replace_all_absent[OF starts_on_br l])
  have 2: "replace_all close_block_pattern [NL] None y = y"
    by (rule replace_all_absent[OF starts_on_close_block l])
  have 3: "replace_all tag_pattern [] None y = y"
    by (rule replace_all_absent[OF starts_on_tag l])
  have 4: "decode_entities y = y" by (rule decode_entities_absent[OF a])
  show ?thesis
    using assms(1,2,3) by (simp add: strip_tags_alt 1 2 3 4 tidy_blanks_id tidy_newlines_id)
qed

lemma stripHtml_fix:
  assumes "CHR ''<'' \<notin> set (stripHtml x None)" and "CHR ''&'' \<notin> set (stripHtml x None)"
  shows "stripHtml (stripHtml x None) None = stripHtml x None"
proof (cases "x = [] \<or> stripHtml x None = []")
  case True
  then show ?thesis by (auto simp: stripHtml_def)
next
  case False
  let ?y = "stripHtml x None"
  from False have y: "?y = strip_tags (cut_quote htmlQuotePatterns x)"
    by (simp add: stripHtml_def cap_length_def)
  have l: "\<forall>c \<in> set ?y. c \<noteq> CHR ''<''" using assms(1) by auto
  have c: "cut_quote htmlQuotePatterns ?y = ?y"
    by (rule cut_quote_absent[OF l]) (simp add: starts_on_quote_patterns)
  have "strip_tags ?y = ?y"
    using strip_tags_tidy[of "cut_quote htmlQuotePatterns x"] assms
    by (intro strip_tags_fix) (simp_all add: y[symmetric])
  then show ?thesis using False c by (simp add: stripHtml_def[of ?y] cap_length_def)
qed

subsection \<open>The claim\<close>

text \<open>
  C7, as the claim states it, fails for the markup-stripping stage: entities are decoded
  after the tags are removed, so decoding can produce markup that a second application
  removes.
\<close>

theorem stripHtml_not_idempotent_counterexample:
  "stripHtml ''&lt;b&gt;bold'' None = ''<b>bold''
   \<and> stripHtml (stripHtml ''&lt;b&gt;bold'' None) None = ''bold''"
  by code_simp

text \<open>
  C7, amended. For arbitrary text \<open>x\<close>, the plain-text quote-removal stage is idempotent,
  \<^verbatim>\<open>stripQuotedContent(stripQuotedContent(x)) == stripQuotedContent(x)\<close>; the markup-stripping
  stage is idempotent on every \<open>x\<close> whose stripped text contains neither \<^verbatim>\<open><\<close> nor \<^verbatim>\<open>&\<close>; and
  each stage maps the empty input to the empty output.
\<close>

theorem stage_idempotence:
  "stripQuotedContent (stripQuotedContent x) = stripQuotedContent x
   \<and> stripQuotedContent [] = []
   \<and> stripHtml [] m = []
   \<and> (CHR ''<'' \<notin> set (stripHtml x None) \<and> CHR ''&'' \<notin> set (stripHtml x None) \<longrightarrow>
        stripHtml (stripHtml x None) None = stripHtml x None)"
proof -
  have 1: "stripQuotedContent (stripQuotedContent x) = stripQuotedContent x"
    by (rule stripQuotedContent_idem)
  have 2: "stripQuotedContent [] = []" by (simp add: stripQuotedContent_def)
  have 3: "stripHtml [] m = []" by (simp add: stripHtml_def)
  have 4: "CHR ''<'' \<notin> set (stripHtml x None) \<and> CHR ''&'' \<notin> set (stripHtml x None) \<longrightarrow>
        stripHtml (stripHtml x None) None = stripHtml x None"
    using stripHtml_fix[of x] by blast
  from 1 2 3 4 show ?thesis by (intro conjI)
qed

theorem stage_idempotence_witness:
  "stripQuotedContent (ex_forward 6) =
     ''Hello there, thanks.'' @ [NL, NL] @ ''[Quoted/forwarded content removed - 146 chars]''
   \<and> stripQuotedContent (stripQuotedContent (ex_forward 6)) =
     ''Hello there, thanks.'' @ [NL, NL] @ ''[Quoted/forwarded content removed - 146 chars]''
   \<and> stripHtml ''<p>a &amp;  b</p><br>'' None = ''a & b''
   \<and> stripHtml ''<p>Hi  there</p><br>'' None = ''Hi there''
   \<and> CHR ''<'' \<notin> set ''Hi there'' \<and> CHR ''&'' \<notin> set ''Hi there''
   \<and> stripHtml (stripHtml ''<p>Hi  there</p><br>'' None) None = ''Hi there''"
proof -
  have a: "stripQuotedContent (ex_forward 6) =
     ''Hello there, thanks.'' @ [NL, NL] @ ''[Quoted/forwarded content removed - 146 chars]''"
    by code_simp
  have b: "stripHtml ''<p>Hi  there</p><br>'' None = ''Hi there''" by code_simp
  have c: "stripHtml ''<p>a &amp;  b</p><br>'' None = ''a & b''" by code_simp
  have d: "CHR ''<'' \<notin> set ''Hi there'' \<and> CHR ''&'' \<notin> set ''Hi there''" by simp
  from stage_idempotence[of "ex_forward 6"] a
  have e: "stripQuotedContent (stripQuotedContent (ex_forward 6)) =
     ''Hello there, thanks.'' @ [NL, NL] @ ''[Quoted/forwarded content removed - 146 chars]''"
    by simp
  from stage_idempotence[of "''<p>Hi  there</p><br>''"] b d
  have f: "stripHtml (stripHtml ''<p>Hi  there</p><br>'' None) None = ''Hi there''"
    by simp
  from a b c d e f show ?thesis by (intro conjI) simp_all
qed

end
